theory Spec2Isabelle
  imports Complex_Main "HOL-Library.AList" "HOL-Library.Multiset" "HOL-Library.Sublist"
begin

section \<open>Python values and exceptions\<close>

text \<open>
  The values that reach \<^verbatim>\<open>batch.py\<close> through its parameters: \<^verbatim>\<open>None\<close>, booleans,
  unbounded integers and strings. Every exception the script or the library calls it
  makes can raise is a constructor of \<open>error\<close>; a computation that may raise returns
  \<open>error + 'a\<close> with \<open>Inl\<close> for the exception.
\<close>

datatype pyval = PyNone | PyBool bool | PyInt int | PyStr string

datatype error =
    TypeError
  | ValueError
  | SystemExit
  | FileNotFoundError
  | NotADirectoryError
  | IsADirectoryError
  | FileExistsError
  | DirectoryNotEmpty
  | SameFileError
  | PermissionError

text \<open>Truth value testing, as \<^verbatim>\<open>if shuffle:\<close> performs it.\<close>

fun truthy :: "pyval \<Rightarrow> bool" where
  "truthy PyNone = False"
| "truthy (PyBool b) = b"
| "truthy (PyInt n) = (n \<noteq> 0)"
| "truthy (PyStr s) = (s \<noteq> [])"

text \<open>
  \<^verbatim>\<open>range\<close> accepts what implements \<^verbatim>\<open>__index__\<close>: integers and booleans. A string or
  \<^verbatim>\<open>None\<close> raises \<^verbatim>\<open>TypeError\<close>.
\<close>

fun index_of :: "pyval \<Rightarrow> error + int" where
  "index_of (PyInt n) = Inr n"
| "index_of (PyBool b) = Inr (if b then 1 else 0)"
| "index_of (PyStr s) = Inl TypeError"
| "index_of PyNone = Inl TypeError"

section \<open>range, enumerate, slices\<close>

function range_up :: "int \<Rightarrow> int \<Rightarrow> int \<Rightarrow> int list" where
  "range_up i stop step =
     (if 0 < step \<and> i < stop then i # range_up (i + step) stop step else [])"
  by pat_completeness auto
termination
  by (relation "measure (\<lambda>(i, stop, step). nat (stop - i))") auto

function range_down :: "int \<Rightarrow> int \<Rightarrow> int \<Rightarrow> int list" where
  "range_down i stop step =
     (if step < 0 \<and> stop < i then i # range_down (i + step) stop step else [])"
  by pat_completeness auto
termination
  by (relation "measure (\<lambda>(i, stop, step). nat (i - stop))") auto

declare range_up.simps [simp del] range_down.simps [simp del]

text \<open>\<^verbatim>\<open>range(start, stop, step)\<close>: a zero step raises \<^verbatim>\<open>ValueError\<close>.\<close>

definition py_range :: "int \<Rightarrow> int \<Rightarrow> int \<Rightarrow> error + int list" where
  "py_range start stop step =
     (if step = 0 then Inl ValueError
      else if 0 < step then Inr (range_up start stop step)
      else Inr (range_down start stop step))"

text \<open>\<^verbatim>\<open>enumerate(xs, n)\<close>.\<close>

fun enumerate_from :: "int \<Rightarrow> 'a list \<Rightarrow> (int \<times> 'a) list" where
  "enumerate_from n [] = []"
| "enumerate_from n (x # xs) = (n, x) # enumerate_from (n + 1) xs"

text \<open>
  \<^verbatim>\<open>xs[lo:hi]\<close>: a negative bound counts from the end, and both bounds are clamped to
  the list.
\<close>

definition clamp_index :: "nat \<Rightarrow> int \<Rightarrow> nat" where
  "clamp_index n i = (if i < 0 then nat (max (i + int n) 0) else min (nat i) n)"

definition py_slice :: "'a list \<Rightarrow> int \<Rightarrow> int \<Rightarrow> 'a list" where
  "py_slice xs lo hi =
     (let lo' = clamp_index (length xs) lo; hi' = clamp_index (length xs) hi
      in take (hi' - lo') (drop lo' xs))"

text \<open>\<^verbatim>\<open>str(n)\<close> for an integer: its decimal digits, after a minus sign when negative.\<close>

definition digit_char :: "nat \<Rightarrow> char" where
  "digit_char d = ''0123456789'' ! d"

function str_nat :: "nat \<Rightarrow> string" where
  "str_nat n = (if n < 10 then [digit_char n] else str_nat (n div 10) @ [digit_char (n mod 10)])"
  by pat_completeness auto
termination
  by (relation "measure id") auto

declare str_nat.simps [simp del]

definition str_int :: "int \<Rightarrow> string" where
  "str_int i = (if i < 0 then CHR ''-'' # str_nat (nat (- i)) else str_nat (nat i))"

section \<open>The random module\<close>

text \<open>
  \<^verbatim>\<open>random.seed\<close> and \<^verbatim>\<open>random.shuffle\<close> work on one generator shared by the whole
  process. Its state is threaded explicitly: \<open>random_seed\<close> gives the state that
  \<^verbatim>\<open>random.seed(a)\<close> installs, and \<open>random_shuffle\<close> gives the order in which
  \<^verbatim>\<open>random.shuffle(x)\<close> leaves the list together with the state it leaves behind. The
  generator itself is the standard library's, so it is a parameter of the model.
\<close>

record 'g random_module =
  random_seed :: "pyval \<Rightarrow> 'g"
  random_shuffle :: "'g \<Rightarrow> string list \<Rightarrow> string list \<times> 'g"

text \<open>The library's contract for \<^verbatim>\<open>shuffle\<close>: the list is permuted.\<close>

definition permuting :: "'g random_module \<Rightarrow> bool" where
  "permuting R = (\<forall>g xs. mset (fst (random_shuffle R g xs)) = mset xs)"

text \<open>
  A small generator on which the theorems below are evaluated: the state is a counter,
  an even state reverses the list and an odd one rotates it by one place.
\<close>

definition demo_random :: "nat random_module" where
  "demo_random =
     \<lparr> random_seed = (\<lambda>v. case v of PyNone \<Rightarrow> 0 | PyBool b \<Rightarrow> of_bool b
                               | PyInt n \<Rightarrow> nat \<bar>n\<bar> | PyStr s \<Rightarrow> length s),
       random_shuffle = (\<lambda>g xs. (if even g then rev xs else rotate1 xs, Suc g)) \<rparr>"

section \<open>The partitioner\<close>

type_synonym batches = "(int \<times> string list) list"

text \<open>
  Lines 68 to 72 of \<^verbatim>\<open>split_filepaths_into_batches\<close>: the dictionary is filled in
  the order of the windows. It is an association list in insertion order, and
  \<^verbatim>\<open>batches[j] = ...\<close> is \<open>AList.update\<close>. \<^verbatim>\<open>range\<close> is evaluated first, so a step it
  rejects raises before any slice is taken.
\<close>

definition slice_into_batches :: "string list \<Rightarrow> pyval \<Rightarrow> error + batches" where
  "slice_into_batches all_image_paths batch_size =
     (case index_of batch_size of
        Inl e \<Rightarrow> Inl e
      | Inr b \<Rightarrow>
          (case py_range 0 (int (length all_image_paths)) b of
             Inl e \<Rightarrow> Inl e
           | Inr r \<Rightarrow>
               Inr (foldl (\<lambda>batches (j, i).
                             AList.update j (py_slice all_image_paths i (i + b)) batches)
                      [] (enumerate_from 1 r))))"

text \<open>
  The whole function. It returns what the call returns or raises, the caller's list as
  the call leaves it (the shuffle works in place), and the generator's state.
\<close>

definition split_filepaths_into_batches ::
  "'g random_module \<Rightarrow> 'g \<Rightarrow> string list \<Rightarrow> pyval \<Rightarrow> pyval \<Rightarrow> pyval
     \<Rightarrow> (error + batches) \<times> string list \<times> 'g" where
  "split_filepaths_into_batches R g all_image_paths batch_size shuffle seed =
     (let g1 = (if seed \<noteq> PyNone then random_seed R seed else g);
          (paths, g2) = (if truthy shuffle then random_shuffle R g1 all_image_paths
                         else (all_image_paths, g1))
      in (slice_into_batches paths batch_size, paths, g2))"

text \<open>Two batches of a collection share no path.\<close>

fun pairwise_disjoint :: "batches \<Rightarrow> bool" where
  "pairwise_disjoint [] = True"
| "pairwise_disjoint ((j, ys) # bs) =
     (list_all (\<lambda>(j', zs). set ys \<inter> set zs = {}) bs \<and> pairwise_disjoint bs)"

section \<open>Paths and the file system\<close>

text \<open>
  \<^verbatim>\<open>os.path.join\<close> with two arguments and \<^verbatim>\<open>os.path.basename\<close>, as \<^verbatim>\<open>posixpath\<close>
  defines them.
\<close>

definition path_join :: "string \<Rightarrow> string \<Rightarrow> string" where
  "path_join a b =
     (if b \<noteq> [] \<and> hd b = CHR ''/'' then b
      else if a = [] \<or> last a = CHR ''/'' then a @ b
      else a @ ''/'' @ b)"

definition basename :: "string \<Rightarrow> string" where
  "basename p = rev (takeWhile (\<lambda>c. c \<noteq> CHR ''/'') (rev p))"

definition dirname :: "string \<Rightarrow> string" where
  "dirname p =
     (let head = rev (dropWhile (\<lambda>c. c \<noteq> CHR ''/'') (rev p))
      in if head \<noteq> [] \<and> list_ex (\<lambda>c. c \<noteq> CHR ''/'') head
         then rev (dropWhile (\<lambda>c. c = CHR ''/'') (rev head)) else head)"

text \<open>
  The file system is a finite table from path strings to nodes, keyed by the strings
  the script passes to the library (no normalisation, no links). The root and the
  directory that relative paths start from are not entries of the table;
  \<open>os_makedirs\<close> and \<open>shutil_copy\<close> below take them as existing directories.
\<close>

datatype node = Dir | File string

type_synonym fs = "(string \<times> node) list"

definition path_exists :: "fs \<Rightarrow> string \<Rightarrow> bool" where
  "path_exists fs p = (map_of fs p \<noteq> None)"

definition path_isdir :: "fs \<Rightarrow> string \<Rightarrow> bool" where
  "path_isdir fs p = (map_of fs p = Some Dir)"

definition is_file :: "fs \<Rightarrow> string \<Rightarrow> bool" where
  "is_file fs p = (case map_of fs p of Some (File c) \<Rightarrow> True | _ \<Rightarrow> False)"

text \<open>\<open>inside p q\<close>: the entry \<open>q\<close> lies below the directory \<open>p\<close>.\<close>

definition inside :: "string \<Rightarrow> string \<Rightarrow> bool" where
  "inside p q = prefix (p @ ''/'') q"

definition dir_nonempty :: "fs \<Rightarrow> string \<Rightarrow> bool" where
  "dir_nonempty fs p = list_ex (inside p) (map fst fs)"

text \<open>\<^verbatim>\<open>os.rmdir\<close>: removes an empty directory, and nothing else.\<close>

definition os_rmdir :: "fs \<Rightarrow> string \<Rightarrow> error + fs" where
  "os_rmdir fs p =
     (case map_of fs p of
        None \<Rightarrow> Inl FileNotFoundError
      | Some (File c) \<Rightarrow> Inl NotADirectoryError
      | Some Dir \<Rightarrow> if dir_nonempty fs p then Inl DirectoryNotEmpty
                    else Inr (AList.delete p fs))"

text \<open>
  \<^verbatim>\<open>os.makedirs\<close> with \<^verbatim>\<open>exist_ok=False\<close>: creates the directory and every missing
  directory above it; raises when the path exists or a path above it is a file.
\<close>

definition ancestors :: "string \<Rightarrow> string list" where
  "ancestors p = map (\<lambda>i. take i p) (filter (\<lambda>i. p ! i = CHR ''/'') [1..<length p])"

definition mkdir_missing :: "fs \<Rightarrow> string \<Rightarrow> fs" where
  "mkdir_missing fs a = (if path_exists fs a then fs else AList.update a Dir fs)"

definition os_makedirs :: "fs \<Rightarrow> string \<Rightarrow> error + fs" where
  "os_makedirs fs p =
     (if path_exists fs p then Inl FileExistsError
      else if list_ex (is_file fs) (ancestors p) then Inl NotADirectoryError
      else Inr (foldl mkdir_missing fs (ancestors p @ [p])))"

text \<open>
  \<^verbatim>\<open>shutil.copy(src, dst)\<close>: into \<open>dst\<close> under the source's base name when \<open>dst\<close> is
  a directory, onto \<open>dst\<close> otherwise. Only the content is modelled.
\<close>

definition copy_onto :: "fs \<Rightarrow> string \<Rightarrow> string \<Rightarrow> error + fs" where
  "copy_onto fs src target =
     (case map_of fs src of
        None \<Rightarrow> Inl FileNotFoundError
      | Some n \<Rightarrow>
          if src = target then Inl SameFileError
          else (case n of
                  Dir \<Rightarrow> Inl IsADirectoryError
                | File c \<Rightarrow>
                    if path_isdir fs target then Inl IsADirectoryError
                    else Inr (AList.update target (File c) fs)))"

definition shutil_copy :: "fs \<Rightarrow> string \<Rightarrow> string \<Rightarrow> error + fs" where
  "shutil_copy fs src dst =
     (if path_isdir fs dst then copy_onto fs src (path_join dst (basename src))
      else if dirname dst \<noteq> [] \<and> dirname dst \<noteq> ''/'' \<and> \<not> path_isdir fs (dirname dst)
           then (case copy_onto fs src dst of Inl e \<Rightarrow> Inl e | Inr fs' \<Rightarrow> Inl FileNotFoundError)
      else copy_onto fs src dst)"

section \<open>The lister and the materializer\<close>

text \<open>
  What the script asks of the operating system without changing it: the listing of a
  directory (in the order the system yields it, or the exception), \<^verbatim>\<open>os.path.abspath\<close>
  and the working directory.
\<close>

record os_env =
  os_listdir :: "string \<Rightarrow> error + string list"
  os_abspath :: "string \<Rightarrow> string"
  os_getcwd :: string

definition gather_filenames :: "os_env \<Rightarrow> string \<Rightarrow> error + string list" where
  "gather_filenames E directory_path =
     (case os_listdir E directory_path of
        Inl e \<Rightarrow> Inl e
      | Inr filenames \<Rightarrow>
          Inr (map (\<lambda>filename. os_abspath E (path_join directory_path filename)) filenames))"

text \<open>
  The materializer returns the exception that ended it, if any, and the file system as
  it is at that point: nothing is rolled back.
\<close>

fun copy_each :: "fs \<Rightarrow> string list \<Rightarrow> string \<Rightarrow> error option \<times> fs" where
  "copy_each fs [] folder_path = (None, fs)"
| "copy_each fs (filepath # rest) folder_path =
     (case shutil_copy fs filepath folder_path of
        Inl e \<Rightarrow> (Some e, fs)
      | Inr fs' \<Rightarrow> copy_each fs' rest folder_path)"

definition create_batch_folder :: "fs \<Rightarrow> string list \<Rightarrow> string \<Rightarrow> string \<Rightarrow> error option \<times> fs" where
  "create_batch_folder fs list_of_filepaths folder_name directory =
     (let folder_path = path_join directory folder_name
      in case (if path_exists fs folder_path then os_rmdir fs folder_path else Inr fs) of
           Inl e \<Rightarrow> (Some e, fs)
         | Inr fs1 \<Rightarrow>
             (case os_makedirs fs1 folder_path of
                Inl e \<Rightarrow> (Some e, fs1)
              | Inr fs2 \<Rightarrow> copy_each fs2 list_of_filepaths folder_path))"

definition batch_folder_name :: "int \<Rightarrow> string" where
  "batch_folder_name batch_no = ''Batch '' @ str_int batch_no"

fun create_all_batches :: "fs \<Rightarrow> batches \<Rightarrow> string \<Rightarrow> error option \<times> fs" where
  "create_all_batches fs [] directory = (None, fs)"
| "create_all_batches fs ((batch_no, files) # rest) directory =
     (case create_batch_folder fs files (batch_folder_name batch_no) directory of
        (Some e, fs') \<Rightarrow> (Some e, fs')
      | (None, fs') \<Rightarrow> create_all_batches fs' rest directory)"

section \<open>The command line\<close>

text \<open>
  What the user typed: for each flag, the string that followed it, if the flag was
  given. No \<^verbatim>\<open>add_argument\<close> call sets \<^verbatim>\<open>type\<close>, so a supplied value stays a string; an
  absent flag takes the declared default. A missing \<^verbatim>\<open>--directory\<close> ends the parser
  with \<^verbatim>\<open>SystemExit\<close>.
\<close>

record cli =
  cli_directory :: "string option"
  cli_batch_size :: "string option"
  cli_shuffle :: "string option"
  cli_output_directory :: "string option"
  cli_seed :: "string option"

record args =
  arg_directory :: string
  arg_batch_size :: pyval
  arg_shuffle :: pyval
  arg_output_directory :: string
  arg_seed :: pyval

definition parse_args :: "string \<Rightarrow> cli \<Rightarrow> error + args" where
  "parse_args cwd argv =
     (case cli_directory argv of
        None \<Rightarrow> Inl SystemExit
      | Some d \<Rightarrow>
          Inr \<lparr> arg_directory = d,
                arg_batch_size = (case cli_batch_size argv of None \<Rightarrow> PyInt 100 | Some s \<Rightarrow> PyStr s),
                arg_shuffle = (case cli_shuffle argv of None \<Rightarrow> PyBool True | Some s \<Rightarrow> PyStr s),
                arg_output_directory = (case cli_output_directory argv of None \<Rightarrow> cwd | Some s \<Rightarrow> s),
                arg_seed = (case cli_seed argv of None \<Rightarrow> PyNone | Some s \<Rightarrow> PyStr s) \<rparr>)"

text \<open>
  \<^verbatim>\<open>main\<close>, in two steps: lines 152 to 160 from the parsed arguments, and the parser
  before them. The call of the partitioner passes three arguments, so its \<^verbatim>\<open>seed\<close>
  parameter takes its default \<^verbatim>\<open>None\<close>. The result is the exception that ended the run,
  or the batch collection that was written out; with it come the generator's state and
  the file system at the end of the run.
\<close>

definition main_with_args ::
  "'g random_module \<Rightarrow> os_env \<Rightarrow> args \<Rightarrow> 'g \<Rightarrow> fs \<Rightarrow> (error + batches) \<times> 'g \<times> fs" where
  "main_with_args R E a g fs =
     (case gather_filenames E (arg_directory a) of
        Inl e \<Rightarrow> (Inl e, g, fs)
      | Inr all_image_paths \<Rightarrow>
          (case split_filepaths_into_batches R g all_image_paths
                  (arg_batch_size a) (arg_shuffle a) PyNone of
             (Inl e, paths, g') \<Rightarrow> (Inl e, g', fs)
           | (Inr batches_dict, paths, g') \<Rightarrow>
               (case create_all_batches fs batches_dict (arg_output_directory a) of
                  (Some e, fs') \<Rightarrow> (Inl e, g', fs')
                | (None, fs') \<Rightarrow> (Inr batches_dict, g', fs'))))"

definition main ::
  "'g random_module \<Rightarrow> os_env \<Rightarrow> cli \<Rightarrow> 'g \<Rightarrow> fs \<Rightarrow> (error + batches) \<times> 'g \<times> fs" where
  "main R E argv g fs =
     (case parse_args (os_getcwd E) argv of
        Inl e \<Rightarrow> (Inl e, g, fs)
      | Inr a \<Rightarrow> main_with_args R E a g fs)"

section \<open>Sample data\<close>

text \<open>
  A directory \<^verbatim>\<open>/d\<close> with three files and an output directory \<^verbatim>\<open>/out\<close>, on which
  the theorems below are evaluated; \<^verbatim>\<open>abspath\<close> leaves these absolute paths as they are.
\<close>

definition demo_env :: os_env where
  "demo_env =
     \<lparr> os_listdir = (\<lambda>d. if d = ''/d'' then Inr [''a'', ''b'', ''c''] else Inl FileNotFoundError),
       os_abspath = (\<lambda>p. p),
       os_getcwd = ''/out'' \<rparr>"

definition demo_fs :: fs where
  "demo_fs =
     [(''/d'', Dir), (''/d/a'', File ''A''), (''/d/b'', File ''B''), (''/d/c'', File ''C''),
      (''/out'', Dir)]"

definition demo_argv :: cli where
  "demo_argv =
     \<lparr> cli_directory = Some ''/d'', cli_batch_size = None, cli_shuffle = None,
       cli_output_directory = None, cli_seed = None \<rparr>"

definition demo_args :: args where
  "demo_args =
     \<lparr> arg_directory = ''/d'', arg_batch_size = PyInt 100, arg_shuffle = PyBool True,
       arg_output_directory = ''/out'', arg_seed = PyNone \<rparr>"

definition demo_fs_empty_folder :: fs where
  "demo_fs_empty_folder = demo_fs @ [(''/out/Batch 1'', Dir)]"

definition demo_fs_full_folder :: fs where
  "demo_fs_full_folder = demo_fs @ [(''/out/Batch 1'', Dir), (''/out/Batch 1/x'', File ''X'')]"

text \<open>Reading a decimal numeral back, to show that \<open>str_nat\<close> is injective.\<close>

definition digit_val :: "char \<Rightarrow> nat" where
  "digit_val c = length (takeWhile (\<lambda>d. d \<noteq> c) ''0123456789'')"

definition nat_of_digits :: "string \<Rightarrow> nat" where
  "nat_of_digits s = foldl (\<lambda>a c. 10 * a + digit_val c) 0 s"

section \<open>Auxiliary facts\<close>

subsection \<open>Ranges, slices and the dictionary of batches\<close>

lemma range_up_eq:
  "0 < step \<Longrightarrow> range_up i stop step
     = map (\<lambda>q. i + int q * step) [0..<nat ((stop - i + step - 1) div step)]"
proof (induction i stop step rule: range_up.induct)
  case (1 i stop step)
  show ?case
  proof (cases "i < stop")
    case True
    let ?c = "(stop - i + step - 1) div step"
    have c1: "(stop - (i + step) + step - 1) div step = ?c - 1"
      using 1(2) by (smt (verit) div_add_self2 [of step "stop - (i + step) + step - 1"])
    have cpos: "1 \<le> ?c"
      using pos_imp_zdiv_pos_iff [of step "stop - i + step - 1"] True 1(2) by linarith
    have "range_up i stop step = i # range_up (i + step) stop step"
      using True 1(2) by (subst range_up.simps) simp
    also have "range_up (i + step) stop step
        = map (\<lambda>q. i + step + int q * step) [0..<nat (?c - 1)]"
      using 1(1) [OF _ 1(2)] True 1(2) c1 by simp
    also have "i # map (\<lambda>q. i + step + int q * step) [0..<nat (?c - 1)]
        = map (\<lambda>q. i + int q * step) [0..<nat ?c]"
    proof -
      obtain m where m: "nat ?c = Suc m" using cpos by (cases "nat ?c") auto
      have m': "nat (?c - 1) = m" using m by linarith
      show ?thesis unfolding m m'
        by (simp add: upt_conv_Cons map_Suc_upt [symmetric] algebra_simps del: upt_Suc)
    qed
    finally show ?thesis .
  next
    case False
    have "(stop - i + step - 1) div step \<le> 0"
      using pos_imp_zdiv_pos_iff [of step "stop - i + step - 1"] False 1(2) by linarith
    moreover have "range_up i stop step = []" using False by (subst range_up.simps) simp
    ultimately show ?thesis by simp
  qed
qed

lemma range_down_empty: "i \<le> stop \<Longrightarrow> range_down i stop step = []"
  by (subst range_down.simps) simp

lemma enumerate_from_map:
  "enumerate_from n (map f [0..<k]) = map (\<lambda>q. (n + int q, f q)) [0..<k]"
proof (induction k arbitrary: n f)
  case 0
  show ?case by simp
next
  case (Suc k)
  have "[0..<Suc k] = 0 # map Suc [0..<k]"
    by (simp add: upt_conv_Cons map_Suc_upt del: upt_Suc)
  then show ?case using Suc [of "n + 1" "f \<circ> Suc"]
    by (simp add: comp_def algebra_simps)
qed

lemma foldl_update_fresh:
  "distinct (map fst kvs) \<Longrightarrow> fst ` set d \<inter> fst ` set kvs = {} \<Longrightarrow>
   foldl (\<lambda>batches (j, v). AList.update j v batches) d kvs = d @ kvs"
proof (induction kvs arbitrary: d)
  case Nil
  show ?case by simp
next
  case (Cons kv kvs)
  obtain j v where kv: "kv = (j, v)" by (cases kv)
  have fresh: "j \<notin> fst ` set d" using Cons.prems(2) kv by auto
  have upd: "AList.update j v d = d @ [(j, v)]"
    using fresh by (induction d) auto
  have "foldl (\<lambda>batches (j, v). AList.update j v batches) (d @ [(j, v)]) kvs = (d @ [(j, v)]) @ kvs"
    using Cons.prems kv by (intro Cons.IH) auto
  then show ?case using kv upd by simp
qed

lemma py_slice_window:
  "0 \<le> i \<Longrightarrow> 0 < b \<Longrightarrow> py_slice xs i (i + b) = take (nat b) (drop (nat i) xs)"
proof -
  assume i: "0 \<le> i" and b: "0 < b"
  have sum: "nat (i + b) = nat i + nat b" using i b by (simp add: nat_add_distrib)
  have "take (min (nat i + nat b) (length xs) - min (nat i) (length xs))
          (drop (min (nat i) (length xs)) xs) = take (nat b) (drop (nat i) xs)"
  proof (cases "nat i \<le> length xs")
    case True
    then have "min (nat i + nat b) (length xs) - nat i = min (nat b) (length xs - nat i)"
      by (simp add: min_def)
    then show ?thesis using True by (simp add: min_def)
  next
    case False
    then show ?thesis by (simp add: min_def)
  qed
  then show ?thesis using i b sum by (simp add: py_slice_def clamp_index_def Let_def)
qed

lemma slice_into_batches_pos:
  assumes "0 < b"
  shows "slice_into_batches xs (PyInt b)
       = Inr (map (\<lambda>q. (1 + int q, take (nat b) (drop (q * nat b) xs)))
                [0..<nat ((int (length xs) + b - 1) div b)])"
proof -
  let ?k = "nat ((int (length xs) + b - 1) div b)"
  let ?f = "\<lambda>batches (j, i). AList.update j (py_slice xs i (i + b)) batches"
  let ?g = "\<lambda>batches (j, v). AList.update j v batches"
  have r: "range_up 0 (int (length xs)) b = map (\<lambda>q. int q * b) [0..<?k]"
    using range_up_eq [OF assms, of 0 "int (length xs)"] by simp
  have e: "enumerate_from 1 (range_up 0 (int (length xs)) b)
         = map (\<lambda>q. (1 + int q, int q * b)) [0..<?k]"
    unfolding r by (rule enumerate_from_map)
  have conv: "foldl ?f d ps = foldl ?g d (map (\<lambda>(j, i). (j, py_slice xs i (i + b))) ps)" for d ps
    by (induction ps arbitrary: d) (auto split: prod.splits)
  have m: "map (\<lambda>(j, i). (j, py_slice xs i (i + b))) (map (\<lambda>q. (1 + int q, int q * b)) [0..<?k])
         = map (\<lambda>q. (1 + int q, take (nat b) (drop (q * nat b) xs))) [0..<?k]"
    using assms by (simp add: py_slice_window nat_mult_distrib)
  have d: "distinct (map fst (map (\<lambda>q. (1 + int q, take (nat b) (drop (q * nat b) xs))) [0..<?k]))"
    by (simp add: comp_def distinct_map inj_on_def)
  have "foldl ?f [] (enumerate_from 1 (range_up 0 (int (length xs)) b))
      = map (\<lambda>q. (1 + int q, take (nat b) (drop (q * nat b) xs))) [0..<?k]"
    unfolding e conv m using foldl_update_fresh [OF d, of "[]"] by simp
  then show ?thesis using assms by (simp add: slice_into_batches_def py_range_def)
qed

lemma slice_into_batches_neg:
  "b < 0 \<Longrightarrow> slice_into_batches xs (PyInt b) = Inr []"
  by (simp add: slice_into_batches_def py_range_def range_down_empty)

lemma slice_into_batches_zero: "slice_into_batches xs (PyInt 0) = Inl ValueError"
  by (simp add: slice_into_batches_def py_range_def)

lemma slice_into_batches_str: "slice_into_batches xs (PyStr s) = Inl TypeError"
  by (simp add: slice_into_batches_def)

lemma upto_as_upt: "0 \<le> k \<Longrightarrow> [1..k] = map (\<lambda>q. 1 + int q) [0..<nat k]"
  by (rule nth_equalityI) auto

lemma batches_by_number:
  assumes "0 < b"
  shows "map (\<lambda>q. (1 + int q, take (nat b) (drop (q * nat b) xs))) [0..<nat k]
       = map (\<lambda>j. (j, take (nat b) (drop (nat ((j - 1) * b)) xs))) [1..k]"
proof (cases "0 \<le> k")
  case True
  have "nat (int q * b) = q * nat b" for q
    using assms by (simp add: nat_mult_distrib)
  then show ?thesis
    unfolding upto_as_upt [OF True] by (simp add: comp_def)
next
  case False
  then show ?thesis by simp
qed

lemma concat_take_windows:
  "concat (map (\<lambda>q. take b (drop (q * b) xs)) [0..<k]) = take (k * b) xs"
proof (induction k)
  case 0
  show ?case by simp
next
  case (Suc k)
  have "take (k * b + b) xs = take (k * b) xs @ take b (drop (k * b) xs)"
    by (rule take_add)
  then show ?case using Suc by (simp add: add.commute)
qed

lemma ceil_div_nat:
  assumes "0 < b"
  shows "nat ((int n + b - 1) div b) = (n + nat b - 1) div nat b"
proof -
  have "int n + b - 1 = int (n + nat b - 1)" using assms by auto
  then have "(int n + b - 1) div b = int ((n + nat b - 1) div nat b)"
    using assms by (simp add: zdiv_int)
  then show ?thesis by simp
qed

lemma ceil_div_covers:
  assumes "0 < (b::nat)"
  shows "n \<le> ((n + b - 1) div b) * b"
proof -
  have "(n + b - 1) = ((n + b - 1) div b) * b + (n + b - 1) mod b" by simp
  moreover have "(n + b - 1) mod b < b" using assms by simp
  ultimately show ?thesis by linarith
qed

lemma ceil_div_real:
  assumes "0 < b"
  shows "(int n + b - 1) div b = \<lceil>real n / real_of_int b\<rceil>"
proof -
  define q where "q = (int n + b - 1) div b"
  define r where "r = (int n + b - 1) mod b"
  have r: "0 \<le> r" "r < b" using assms by (simp_all add: r_def)
  have "int n + b - 1 = b * q + r" by (simp add: q_def r_def)
  then have "- int n = b * (- q) + (b - 1 - r)" by (simp add: algebra_simps)
  then have "- int n div b = - q"
    using r by (intro int_div_pos_eq [of _ _ _ "b - 1 - r"]) auto
  moreover have "\<lceil>real n / real_of_int b\<rceil> = - (- int n div b)"
    using ceiling_divide_eq_div [of "int n" b] by simp
  ultimately show ?thesis by (simp add: q_def)
qed

lemma pairwise_disjoint_concat:
  "distinct (concat (map snd bs)) \<Longrightarrow> pairwise_disjoint bs"
proof (induction bs)
  case Nil
  show ?case by simp
next
  case (Cons p bs)
  obtain j ys where p: "p = (j, ys)" by (cases p)
  have "set ys \<inter> set zs = {}" if "(j', zs) \<in> set bs" for j' zs
    using Cons.prems that unfolding p by force
  then have "list_all (\<lambda>(j', zs). set ys \<inter> set zs = {}) bs"
    by (auto simp: list_all_iff)
  then show ?case using Cons p by simp
qed

lemma split_result:
  "split_filepaths_into_batches R g xs batch_size shuffle seed = (result, paths, g') \<Longrightarrow>
   result = slice_into_batches paths batch_size \<and>
   paths = (if truthy shuffle
            then fst (random_shuffle R (if seed \<noteq> PyNone then random_seed R seed else g) xs)
            else xs)"
  by (auto simp: split_filepaths_into_batches_def Let_def split: prod.splits if_splits)

lemma window_sizes:
  fixes b :: int
  assumes b: "0 < b" and j: "1 \<le> j" "j \<le> (int (length xs) + b - 1) div b"
  defines "k \<equiv> (int (length xs) + b - 1) div b"
  defines "ys \<equiv> take (nat b) (drop (nat ((j - 1) * b)) xs)"
  shows "j < k \<Longrightarrow> length ys = nat b"
    and "j = k \<Longrightarrow> int (length ys) = int (length xs) - b * (k - 1)"
    and "1 \<le> length ys" and "int (length ys) \<le> b"
proof -
  let ?n = "length xs"
  have len: "length ys = min (nat b) (?n - nat ((j - 1) * b))"
    by (simp add: ys_def)
  have dm: "int ?n + b - 1 = k * b + (int ?n + b - 1) mod b"
    unfolding k_def by simp
  have m: "0 \<le> (int ?n + b - 1) mod b" "(int ?n + b - 1) mod b < b"
    using b by simp_all
  have kb: "(k - 1) * b < int ?n"
    using dm m by (simp add: algebra_simps)
  have cover: "int ?n \<le> k * b"
    using dm m by (simp add: algebra_simps)
  have jb: "0 \<le> (j - 1) * b" using j b by simp
  have lower: "(j - 1) * b \<le> (k - 1) * b" using j b by (simp add: k_def)
  show "j < k \<Longrightarrow> length ys = nat b"
  proof -
    assume "j < k"
    then have "j * b \<le> (k - 1) * b" using b by simp
    then have "(j - 1) * b + b \<le> int ?n" using kb by (simp add: algebra_simps)
    then show ?thesis using len jb b by linarith
  qed
  show "j = k \<Longrightarrow> int (length ys) = int (length xs) - b * (k - 1)"
  proof -
    assume "j = k"
    then have "int ?n - (j - 1) * b \<le> b" using cover by (simp add: algebra_simps)
    then have "int (length ys) = int ?n - (j - 1) * b"
      using len jb b kb lower by linarith
    then show ?thesis using \<open>j = k\<close> by (simp add: algebra_simps)
  qed
  show "1 \<le> length ys" using len jb b kb lower by linarith
  show "int (length ys) \<le> b" using len b by linarith
qed

lemma slice_into_batches_windows:
  assumes "0 < b"
  shows "slice_into_batches xs (PyInt b)
       = Inr (map (\<lambda>j. (j, take (nat b) (drop (nat ((j - 1) * b)) xs)))
                [1..(int (length xs) + b - 1) div b])"
  using slice_into_batches_pos [OF assms, of xs] batches_by_number [OF assms, of xs]
  by simp

lemma concat_windows:
  assumes "0 < b"
  shows "concat (map snd (map (\<lambda>j. (j, take (nat b) (drop (nat ((j - 1) * b)) xs)))
                [1..(int (length xs) + b - 1) div b])) = xs"
proof -
  let ?k = "nat ((int (length xs) + b - 1) div b)"
  have nb: "0 < nat b" using assms by simp
  have "concat (map snd (map (\<lambda>q. (1 + int q, take (nat b) (drop (q * nat b) xs))) [0..<?k]))
      = take (?k * nat b) xs"
    using concat_take_windows [of "nat b" xs ?k] by (simp add: comp_def)
  moreover have "length xs \<le> ?k * nat b"
    unfolding ceil_div_nat [OF assms] by (rule ceil_div_covers [OF nb])
  ultimately show ?thesis
    unfolding batches_by_number [OF assms, symmetric] by simp
qed

lemma mset_rotate1: "mset (rotate1 xs) = mset xs"
  by (cases xs) simp_all

lemma demo_permuting: "permuting demo_random"
  by (simp add: permuting_def demo_random_def mset_rotate1)

lemma demo_split_shuffled:
  "split_filepaths_into_batches demo_random (1::nat)
      [''/d/a'', ''/d/b'', ''/d/c'', ''/d/d'', ''/d/e'', ''/d/f'', ''/d/g''] (PyInt 3) (PyBool True) PyNone
   = (Inr [(1, [''/d/b'', ''/d/c'', ''/d/d'']), (2, [''/d/e'', ''/d/f'', ''/d/g'']), (3, [''/d/a''])],
      [''/d/b'', ''/d/c'', ''/d/d'', ''/d/e'', ''/d/f'', ''/d/g'', ''/d/a''], 2)"
  by code_simp


subsection \<open>Names of folders and paths\<close>

lemma digit_cases: "d < 10 \<Longrightarrow> d \<in> {0, 1, 2, 3, 4, 5, 6, 7, 8, 9::nat}"
  by auto

lemma digit_val_char: "d < 10 \<Longrightarrow> digit_val (digit_char d) = d"
  using digit_cases [of d] by (auto simp: digit_val_def digit_char_def)

lemma digit_char_not_minus: "d < 10 \<Longrightarrow> digit_char d \<noteq> CHR ''-''"
  using digit_cases [of d] by (auto simp: digit_char_def)

lemma nat_of_digits_snoc: "nat_of_digits (s @ [c]) = 10 * nat_of_digits s + digit_val c"
  by (simp add: nat_of_digits_def)

lemma nat_of_digits_str_nat: "nat_of_digits (str_nat n) = n"
proof (induction n rule: str_nat.induct)
  case (1 n)
  show ?case
  proof (cases "n < 10")
    case True
    then show ?thesis
      by (subst str_nat.simps) (simp add: nat_of_digits_def digit_val_char)
  next
    case False
    then have "nat_of_digits (str_nat n) = 10 * nat_of_digits (str_nat (n div 10)) + digit_val (digit_char (n mod 10))"
      by (subst str_nat.simps) (simp add: nat_of_digits_snoc)
    then show ?thesis using 1 False by (simp add: digit_val_char)
  qed
qed

lemma str_nat_inj: "str_nat m = str_nat n \<Longrightarrow> m = n"
  by (metis nat_of_digits_str_nat)

lemma str_nat_no_minus: "CHR ''-'' \<notin> set (str_nat n)"
proof (induction n rule: str_nat.induct)
  case (1 n)
  show ?case
  proof (cases "n < 10")
    case True
    then show ?thesis
      using digit_char_not_minus [of n] by (subst str_nat.simps) auto
  next
    case False
    then show ?thesis
      using 1 digit_char_not_minus [of "n mod 10"] by (subst str_nat.simps) auto
  qed
qed

lemma str_nat_nonempty: "str_nat n \<noteq> []"
  by (subst str_nat.simps) simp

lemma str_int_inj: "str_int i = str_int j \<Longrightarrow> i = j"
proof -
  assume e: "str_int i = str_int j"
  have hd_neg: "hd (str_int x) = CHR ''-''" if "x < 0" for x
    using that by (simp add: str_int_def)
  have hd_pos: "hd (str_int x) \<noteq> CHR ''-''" if "0 \<le> x" for x
    using that str_nat_no_minus [of "nat x"] str_nat_nonempty [of "nat x"]
    by (cases "str_nat (nat x)") (auto simp: str_int_def)
  show "i = j"
  proof (cases "i < 0")
    case True
    then have "j < 0" using e hd_neg [OF True] hd_pos [of j] by force
    then show ?thesis using True e str_nat_inj [of "nat (- i)" "nat (- j)"]
      by (simp add: str_int_def)
  next
    case False
    then have "0 \<le> j" using e hd_neg [of j] hd_pos [of i] by force
    then show ?thesis using False e str_nat_inj [of "nat i" "nat j"]
      by (simp add: str_int_def)
  qed
qed

lemma batch_folder_name_inj: "batch_folder_name i = batch_folder_name j \<Longrightarrow> i = j"
  by (simp add: batch_folder_name_def str_int_inj)

lemma path_join_append:
  "b = [] \<or> hd b \<noteq> CHR ''/'' \<Longrightarrow>
   path_join a b = (if a = [] \<or> last a = CHR ''/'' then a else a @ ''/'') @ b"
  by (auto simp: path_join_def)

lemma batch_folder_path_inj:
  "path_join directory (batch_folder_name i) = path_join directory (batch_folder_name j) \<Longrightarrow> i = j"
proof -
  have "hd (batch_folder_name x) \<noteq> CHR ''/''" for x by (simp add: batch_folder_name_def)
  then show "path_join directory (batch_folder_name i) = path_join directory (batch_folder_name j) \<Longrightarrow> i = j"
    by (simp add: path_join_append batch_folder_name_inj)
qed

lemma basename_no_slash: "CHR ''/'' \<notin> set (basename p)"
  using set_takeWhileD [of "CHR ''/''" "\<lambda>c. c \<noteq> CHR ''/''" "rev p"]
  by (auto simp: basename_def)

lemma path_join_name:
  assumes "CHR ''/'' \<notin> set b"
  shows "path_join a b = (if a = [] \<or> last a = CHR ''/'' then a else a @ ''/'') @ b"
proof -
  have "b = [] \<or> hd b \<noteq> CHR ''/''" using assms by (cases b) auto
  then show ?thesis by (rule path_join_append)
qed

lemma path_join_name_inj:
  "CHR ''/'' \<notin> set b \<Longrightarrow> CHR ''/'' \<notin> set b' \<Longrightarrow> path_join a b = path_join a b' \<Longrightarrow> b = b'"
  by (simp add: path_join_name)

lemma takeWhile_stop:
  "\<forall>x\<in>set xs. P x \<Longrightarrow> \<not> P y \<Longrightarrow> takeWhile P (xs @ y # ys) = xs"
  by (induction xs) auto

lemma basename_append_name:
  assumes "CHR ''/'' \<notin> set b" and "a = [] \<or> last a = CHR ''/''"
  shows "basename (a @ b) = b"
proof -
  have "takeWhile (\<lambda>c. c \<noteq> CHR ''/'') (rev b @ rev a) = rev b"
  proof (cases a rule: rev_cases)
    case Nil
    then show ?thesis using assms(1) by (auto simp: takeWhile_eq_all_conv)
  next
    case (snoc as x)
    then have "x = CHR ''/''" using assms(2) by simp
    have "\<forall>c\<in>set (rev b). c \<noteq> CHR ''/''" using assms(1) by auto
    then have "takeWhile (\<lambda>c. c \<noteq> CHR ''/'') (rev b @ CHR ''/'' # rev as) = rev b"
      by (rule takeWhile_stop) simp
    then show ?thesis using snoc \<open>x = CHR ''/''\<close> by simp
  qed
  then show ?thesis by (simp add: basename_def)
qed

lemma basename_path_join:
  assumes "CHR ''/'' \<notin> set b" and "path_join a b \<noteq> a"
  shows "basename (path_join a b) = b"
proof (cases "a = [] \<or> last a = CHR ''/''")
  case True
  then show ?thesis using assms basename_append_name [OF assms(1) True]
    by (simp add: path_join_name)
next
  case False
  have "basename ((a @ ''/'') @ b) = b"
    by (rule basename_append_name [OF assms(1)]) simp
  then show ?thesis using False assms(1) by (simp add: path_join_name)
qed

subsection \<open>The file system calls\<close>

lemma map_of_mkdir_missing:
  "map_of (mkdir_missing fs a) q = (if q = a \<and> map_of fs q = None then Some Dir else map_of fs q)"
  by (auto simp: mkdir_missing_def path_exists_def update_conv')

lemma map_of_makedirs_fold:
  "map_of (foldl mkdir_missing fs as) q
     = (if q \<in> set as \<and> map_of fs q = None then Some Dir else map_of fs q)"
proof (induction as arbitrary: fs)
  case Nil
  show ?case by simp
next
  case (Cons a as)
  show ?case
    by (simp add: Cons map_of_mkdir_missing)
qed

lemma os_makedirs_result:
  assumes "os_makedirs fs p = Inr fs2"
  shows "map_of fs2 p = Some Dir"
    and "map_of fs q \<noteq> None \<Longrightarrow> map_of fs2 q = map_of fs q"
    and "map_of fs2 q = Some (File c) \<Longrightarrow> map_of fs q = Some (File c)"
proof -
  have fs2: "fs2 = foldl mkdir_missing fs (ancestors p @ [p])"
    and absent: "map_of fs p = None"
    using assms by (auto simp: os_makedirs_def path_exists_def split: if_splits)
  show "map_of fs2 p = Some Dir"
    unfolding fs2 map_of_makedirs_fold using absent by simp
  show "map_of fs q \<noteq> None \<Longrightarrow> map_of fs2 q = map_of fs q"
    unfolding fs2 map_of_makedirs_fold by simp
  show "map_of fs2 q = Some (File c) \<Longrightarrow> map_of fs q = Some (File c)"
    unfolding fs2 map_of_makedirs_fold by (simp split: if_splits)
qed

lemma os_rmdir_result:
  assumes "os_rmdir fs p = Inr fs1"
  shows "fs1 = AList.delete p fs" and "map_of fs p = Some Dir" and "\<not> dir_nonempty fs p"
  using assms by (auto simp: os_rmdir_def split: option.splits node.splits if_splits)

lemma shutil_copy_into_dir:
  assumes "path_isdir fs p" and "shutil_copy fs f p = Inr fs'"
  shows "\<exists>c. map_of fs f = Some (File c)
           \<and> f \<noteq> path_join p (basename f)
           \<and> \<not> path_isdir fs (path_join p (basename f))
           \<and> fs' = AList.update (path_join p (basename f)) (File c) fs"
  using assms
  by (auto simp: shutil_copy_def copy_onto_def split: option.splits node.splits if_splits)

lemma copy_each_frame:
  assumes "copy_each fs files p = (None, fs')" and "path_isdir fs p"
    and "q \<notin> (\<lambda>f. path_join p (basename f)) ` set files"
  shows "map_of fs' q = map_of fs q"
  using assms
proof (induction files arbitrary: fs)
  case Nil
  then show ?case by simp
next
  case (Cons f files)
  from Cons.prems(1) obtain fs1 where
    c: "shutil_copy fs f p = Inr fs1" and r: "copy_each fs1 files p = (None, fs')"
    by (auto split: sum.splits)
  from shutil_copy_into_dir [OF Cons.prems(2) c] obtain c' where
    t: "\<not> path_isdir fs (path_join p (basename f))"
    and u: "fs1 = AList.update (path_join p (basename f)) (File c') fs"
    by blast
  have ne: "path_join p (basename f) \<noteq> p" using t Cons.prems(2) by auto
  have d: "path_isdir fs1 p"
    using Cons.prems(2) ne by (simp add: u path_isdir_def update_conv')
  have "map_of fs' q = map_of fs1 q"
    using Cons.IH [OF r d] Cons.prems(3) by simp
  also have "\<dots> = map_of fs q"
    using Cons.prems(3) by (simp add: u update_conv')
  finally show ?case .
qed

lemma copy_each_isdir:
  assumes "copy_each fs files p = (None, fs')" and "path_isdir fs p"
  shows "path_isdir fs' p"
proof -
  have "p \<notin> (\<lambda>f. path_join p (basename f)) ` set files"
    using assms
  proof (induction files arbitrary: fs)
    case Nil
    then show ?case by simp
  next
    case (Cons f files)
    from Cons.prems(1) obtain fs1 where
      c: "shutil_copy fs f p = Inr fs1" and r: "copy_each fs1 files p = (None, fs')"
      by (auto split: sum.splits)
    from shutil_copy_into_dir [OF Cons.prems(2) c] obtain c' where
      t: "\<not> path_isdir fs (path_join p (basename f))"
      and u: "fs1 = AList.update (path_join p (basename f)) (File c') fs"
      by blast
    have ne: "path_join p (basename f) \<noteq> p" using t Cons.prems(2) by auto
    have d: "path_isdir fs1 p"
      using Cons.prems(2) ne by (simp add: u path_isdir_def update_conv')
    show ?case using Cons.IH [OF r d] ne by auto
  qed
  then show ?thesis
    using copy_each_frame [OF assms] assms(2) by (simp add: path_isdir_def)
qed

lemma copy_each_files:
  assumes "copy_each fs files p = (None, fs')" and "path_isdir fs p" and "f \<in> set files"
  shows "is_file fs' (path_join p (basename f))"
  using assms
proof (induction files arbitrary: fs f)
  case Nil
  then show ?case by simp
next
  case (Cons g files)
  from Cons.prems(1) obtain fs1 where
    c: "shutil_copy fs g p = Inr fs1" and r: "copy_each fs1 files p = (None, fs')"
    by (auto split: sum.splits)
  from shutil_copy_into_dir [OF Cons.prems(2) c] obtain c' where
    t: "\<not> path_isdir fs (path_join p (basename g))"
    and u: "fs1 = AList.update (path_join p (basename g)) (File c') fs"
    by blast
  have ne: "path_join p (basename g) \<noteq> p" using t Cons.prems(2) by auto
  have d: "path_isdir fs1 p"
    using Cons.prems(2) ne by (simp add: u path_isdir_def update_conv')
  show ?case
  proof (cases "path_join p (basename f) \<in> (\<lambda>f. path_join p (basename f)) ` set files")
    case True
    then obtain f' where "f' \<in> set files" "path_join p (basename f') = path_join p (basename f)"
      by auto
    then show ?thesis using Cons.IH [OF r d \<open>f' \<in> set files\<close>] by simp
  next
    case False
    then have "f = g" using Cons.prems(3) by auto
    have "map_of fs' (path_join p (basename f)) = map_of fs1 (path_join p (basename f))"
      by (rule copy_each_frame [OF r d False])
    then show ?thesis using \<open>f = g\<close> by (simp add: u update_conv' is_file_def)
  qed
qed

lemma copy_each_content:
  assumes "copy_each fs files p = (None, fs')" and "path_isdir fs p"
    and "distinct (map basename files)" and "f \<in> set files"
  shows "map_of fs' (path_join p (basename f)) = map_of fs f"
  using assms
proof (induction files arbitrary: fs)
  case Nil
  then show ?case by simp
next
  case (Cons g files)
  from Cons.prems(1) obtain fs1 where
    c: "shutil_copy fs g p = Inr fs1" and r: "copy_each fs1 files p = (None, fs')"
    by (auto split: sum.splits)
  from shutil_copy_into_dir [OF Cons.prems(2) c] obtain c' where
    src: "map_of fs g = Some (File c')"
    and t: "\<not> path_isdir fs (path_join p (basename g))"
    and u: "fs1 = AList.update (path_join p (basename g)) (File c') fs"
    by blast
  have ne: "path_join p (basename g) \<noteq> p" using t Cons.prems(2) by auto
  have d: "path_isdir fs1 p"
    using Cons.prems(2) ne by (simp add: u path_isdir_def update_conv')
  have bn: "basename (path_join p (basename g)) = basename g"
    using basename_path_join [OF basename_no_slash ne] .
  have fresh: "basename g \<notin> basename ` set files" using Cons.prems(3) by simp
  show ?case
  proof (cases "f = g")
    case True
    have "path_join p (basename g) \<notin> (\<lambda>f. path_join p (basename f)) ` set files"
    proof
      assume "path_join p (basename g) \<in> (\<lambda>f. path_join p (basename f)) ` set files"
      then obtain f' where f': "f' \<in> set files" "path_join p (basename g) = path_join p (basename f')"
        by auto
      then have "basename g = basename f'"
        using path_join_name_inj [OF basename_no_slash basename_no_slash] by blast
      then show False using fresh f'(1) by (metis imageI)
    qed
    then have "map_of fs' (path_join p (basename g)) = map_of fs1 (path_join p (basename g))"
      by (rule copy_each_frame [OF r d])
    then show ?thesis using True src by (simp add: u update_conv')
  next
    case False
    then have mem: "f \<in> set files" using Cons.prems(4) by simp
    have "f \<noteq> path_join p (basename g)"
    proof
      assume "f = path_join p (basename g)"
      then have "basename f = basename g" using bn by simp
      then show False using fresh mem by (metis imageI)
    qed
    then have "map_of fs1 f = map_of fs f" by (simp add: u update_conv')
    moreover have "map_of fs' (path_join p (basename f)) = map_of fs1 f"
      using Cons.IH [OF r d _ mem] Cons.prems(3) by simp
    ultimately show ?thesis by simp
  qed
qed

lemma create_batch_folder_nonempty:
  assumes "path_isdir fs (path_join directory folder_name)"
    and "dir_nonempty fs (path_join directory folder_name)"
  shows "create_batch_folder fs files folder_name directory = (Some DirectoryNotEmpty, fs)"
  using assms
  by (simp add: create_batch_folder_def Let_def path_isdir_def path_exists_def os_rmdir_def)

lemma create_batch_folder_empty:
  assumes "path_isdir fs (path_join directory folder_name)"
    and "\<not> dir_nonempty fs (path_join directory folder_name)"
  shows "create_batch_folder fs files folder_name directory
       = (case os_makedirs (AList.delete (path_join directory folder_name) fs)
                  (path_join directory folder_name) of
            Inl e \<Rightarrow> (Some e, AList.delete (path_join directory folder_name) fs)
          | Inr fs2 \<Rightarrow> copy_each fs2 files (path_join directory folder_name))"
  using assms
  by (simp add: create_batch_folder_def Let_def path_isdir_def path_exists_def os_rmdir_def)

lemma create_batch_folder_success:
  assumes "create_batch_folder fs files folder_name directory = (None, fs')"
  defines "p \<equiv> path_join directory folder_name"
  shows "path_isdir fs' p"
    and "f \<in> set files \<Longrightarrow> is_file fs' (path_join p (basename f))"
    and "f \<in> set files \<Longrightarrow> distinct (map basename files)
           \<Longrightarrow> map_of fs' (path_join p (basename f)) = map_of fs f"
proof -
  obtain fs1 fs2 where
    rm: "(if path_exists fs p then os_rmdir fs p else Inr fs) = Inr fs1"
    and mk: "os_makedirs fs1 p = Inr fs2"
    and cp: "copy_each fs2 files p = (None, fs')"
    using assms(1) unfolding create_batch_folder_def p_def Let_def
    by (auto split: sum.splits)
  have d: "path_isdir fs2 p"
    using os_makedirs_result(1) [OF mk] by (simp add: path_isdir_def)
  show "path_isdir fs' p" by (rule copy_each_isdir [OF cp d])
  show "f \<in> set files \<Longrightarrow> is_file fs' (path_join p (basename f))"
    by (rule copy_each_files [OF cp d])
  show "map_of fs' (path_join p (basename f)) = map_of fs f"
    if f: "f \<in> set files" and dist: "distinct (map basename files)"
  proof -
    have e: "map_of fs' (path_join p (basename f)) = map_of fs2 f"
      by (rule copy_each_content [OF cp d dist f])
    have "is_file fs' (path_join p (basename f))" by (rule copy_each_files [OF cp d f])
    then obtain c where c: "map_of fs2 f = Some (File c)"
      using e by (auto simp: is_file_def split: option.splits node.splits)
    have 1: "map_of fs1 f = Some (File c)" by (rule os_makedirs_result(3) [OF mk c])
    have "map_of fs f = Some (File c)"
    proof (cases "path_exists fs p")
      case True
      then have "fs1 = AList.delete p fs" using rm os_rmdir_result(1) by simp
      then show ?thesis using 1 by (simp add: delete_conv' split: if_splits)
    next
      case False
      then show ?thesis using rm 1 by simp
    qed
    then show ?thesis using e c by simp
  qed
qed

lemma str_nat_no_slash: "CHR ''/'' \<notin> set (str_nat n)"
proof (induction n rule: str_nat.induct)
  case (1 n)
  have d: "digit_char m \<noteq> CHR ''/''" if "m < 10" for m
    using digit_cases [OF that] by (auto simp: digit_char_def)
  show ?case
  proof (cases "n < 10")
    case True
    then show ?thesis using d [of n] by (subst str_nat.simps) auto
  next
    case False
    then show ?thesis using 1 d [of "n mod 10"] by (subst str_nat.simps) auto
  qed
qed

lemma batch_folder_path_shape:
  "path_join directory (batch_folder_name n) \<noteq> [] \<and>
   last (path_join directory (batch_folder_name n)) \<noteq> CHR ''/''"
proof -
  have ne: "str_nat m \<noteq> []" for m by (rule str_nat_nonempty)
  have "last (str_nat m) \<noteq> CHR ''/''" for m
    using str_nat_no_slash [of m] ne [of m] last_in_set [of "str_nat m"] by metis
  then have l: "last (str_int n) \<noteq> CHR ''/''" and n: "str_int n \<noteq> []"
    using ne by (auto simp: str_int_def)
  have "hd (batch_folder_name n) \<noteq> CHR ''/''" by (simp add: batch_folder_name_def)
  then have "path_join directory (batch_folder_name n)
      = (if directory = [] \<or> last directory = CHR ''/'' then directory else directory @ ''/'')
        @ ''Batch '' @ str_int n"
    by (simp add: path_join_append batch_folder_name_def)
  then show ?thesis using l n by simp
qed

lemma inside_join:
  assumes "p \<noteq> []" and "last p \<noteq> CHR ''/''"
  shows "inside p (path_join p (basename f))"
  using assms path_join_name [OF basename_no_slash, of p f]
  by (simp add: inside_def)

lemma inside_longer: "inside p q \<Longrightarrow> length p < length q"
  by (auto simp: inside_def prefix_def)

lemma dir_nonempty_iff: "dir_nonempty fs p \<longleftrightarrow> (\<exists>q. map_of fs q \<noteq> None \<and> inside p q)"
  by (auto simp: dir_nonempty_def list_ex_iff map_of_eq_None_iff)

lemma ancestors_shorter: "a \<in> set (ancestors p) \<Longrightarrow> length a < length p"
  by (auto simp: ancestors_def)

lemma copy_each_succeeds:
  assumes "path_isdir fs p" and "p \<noteq> []" and "last p \<noteq> CHR ''/''"
    and "\<forall>f \<in> set files. is_file fs f \<and> \<not> inside p f"
    and "\<forall>q. inside p q \<longrightarrow> map_of fs q \<noteq> Some Dir"
  shows "\<exists>fs'. copy_each fs files p = (None, fs')"
  using assms
proof (induction files arbitrary: fs)
  case Nil
  show ?case by simp
next
  case (Cons f files)
  let ?t = "path_join p (basename f)"
  have t: "inside p ?t" by (rule inside_join [OF Cons.prems(2,3)])
  obtain c where c: "map_of fs f = Some (File c)"
    using Cons.prems(4) by (auto simp: is_file_def split: option.splits node.splits)
  have ft: "f \<noteq> ?t" using Cons.prems(4) t by auto
  have nd: "\<not> path_isdir fs ?t" using Cons.prems(5) t by (auto simp: path_isdir_def)
  have tp: "?t \<noteq> p" using inside_longer [OF t] by auto
  let ?fs1 = "AList.update ?t (File c) fs"
  have step: "shutil_copy fs f p = Inr ?fs1"
    using Cons.prems(1) c ft nd by (simp add: shutil_copy_def copy_onto_def)
  have 1: "path_isdir ?fs1 p" using Cons.prems(1) tp by (simp add: path_isdir_def update_conv')
  have 2: "\<forall>g \<in> set files. is_file ?fs1 g \<and> \<not> inside p g"
    using Cons.prems(4) t by (auto simp: is_file_def update_conv')
  have 3: "\<forall>q. inside p q \<longrightarrow> map_of ?fs1 q \<noteq> Some Dir"
    using Cons.prems(5) by (simp add: update_conv')
  from Cons.IH [OF 1 Cons.prems(2,3) 2 3] obtain fs' where "copy_each ?fs1 files p = (None, fs')"
    by blast
  then show ?case using step by simp
qed

lemma create_batch_folder_succeeds:
  assumes "map_of fs (path_join directory (batch_folder_name n)) \<in> {None, Some Dir}"
    and "\<not> dir_nonempty fs (path_join directory (batch_folder_name n))"
    and "\<not> list_ex (is_file fs) (ancestors (path_join directory (batch_folder_name n)))"
    and "\<forall>f \<in> set files. is_file fs f"
  shows "\<exists>fs'. create_batch_folder fs files (batch_folder_name n) directory = (None, fs')"
proof -
  let ?p = "path_join directory (batch_folder_name n)"
  define fs1 where "fs1 = (if path_exists fs ?p then AList.delete ?p fs else fs)"
  have rm: "(if path_exists fs ?p then os_rmdir fs ?p else Inr fs) = Inr fs1"
    using assms(1,2) by (auto simp: fs1_def path_exists_def os_rmdir_def)
  have m1: "map_of fs1 q = (if q = ?p then None else map_of fs q)" for q
    using assms(1) by (auto simp: fs1_def path_exists_def delete_conv')
  have "\<not> list_ex (is_file fs1) (ancestors ?p)"
    using assms(3) by (auto simp: list_ex_iff is_file_def m1 split: option.splits node.splits)
  then obtain fs2 where mk: "os_makedirs fs1 ?p = Inr fs2"
    and fs2: "fs2 = foldl mkdir_missing fs1 (ancestors ?p @ [?p])"
    by (simp add: os_makedirs_def path_exists_def m1)
  have shape: "?p \<noteq> []" "last ?p \<noteq> CHR ''/''"
    using batch_folder_path_shape [of directory n] by simp_all
  have d: "path_isdir fs2 ?p"
    using os_makedirs_result(1) [OF mk] by (simp add: path_isdir_def)
  have noin: "map_of fs q = None" if "inside ?p q" for q
    using assms(2) that by (auto simp: dir_nonempty_iff)
  have files: "\<forall>f \<in> set files. is_file fs2 f \<and> \<not> inside ?p f"
  proof
    fix f assume f: "f \<in> set files"
    then have isf: "is_file fs f" using assms(4) by simp
    then have ex: "map_of fs f \<noteq> None" by (auto simp: is_file_def split: option.splits)
    have ni: "\<not> inside ?p f" using ex noin [of f] by auto
    have "f \<noteq> ?p" using isf assms(1) by (auto simp: is_file_def)
    then have "map_of fs1 f = map_of fs f" by (simp add: m1)
    then have "map_of fs2 f = map_of fs f" using os_makedirs_result(2) [OF mk, of f] ex by simp
    then show "is_file fs2 f \<and> \<not> inside ?p f" using isf ni by (simp add: is_file_def)
  qed
  have nodir: "\<forall>q. inside ?p q \<longrightarrow> map_of fs2 q \<noteq> Some Dir"
  proof (intro allI impI)
    fix q assume q: "inside ?p q"
    have "q \<notin> set (ancestors ?p @ [?p])"
      using inside_longer [OF q] ancestors_shorter [of q ?p] by auto
    moreover have "map_of fs1 q = None" using noin [OF q] by (simp add: m1)
    ultimately show "map_of fs2 q \<noteq> Some Dir"
      unfolding fs2 map_of_makedirs_fold by simp
  qed
  from copy_each_succeeds [OF d shape files nodir] obtain fs' where
    "copy_each fs2 files ?p = (None, fs')" by blast
  then show ?thesis
    using rm mk by (auto simp: create_batch_folder_def Let_def)
qed

subsection \<open>The command line\<close>

lemma split_str_batch_size:
  "fst (split_filepaths_into_batches R g xs (PyStr s) shuffle seed) = Inl TypeError"
  by (simp add: split_filepaths_into_batches_def Let_def slice_into_batches_str split: prod.splits)

lemma main_ignores_seed:
  "main R E (argv\<lparr>cli_seed := x\<rparr>) g fs = main R E argv g fs"
proof -
  have w: "main_with_args R E (a\<lparr>arg_seed := y\<rparr>) g fs = main_with_args R E a g fs" for a y
    by (simp add: main_with_args_def cong: sum.case_cong)
  have "parse_args cwd (argv\<lparr>cli_seed := x\<rparr>)
      = (case parse_args cwd argv of Inl e \<Rightarrow> Inl e
         | Inr a \<Rightarrow> Inr (a\<lparr>arg_seed := (case x of None \<Rightarrow> PyNone | Some s \<Rightarrow> PyStr s)\<rparr>))" for cwd
    by (simp add: parse_args_def split: option.splits)
  then show ?thesis
    by (simp add: main_def w split: sum.splits)
qed

lemma demo_gather:
  "gather_filenames demo_env ''/d'' = Inr [''/d/a'', ''/d/b'', ''/d/c'']"
  by code_simp

lemma split_truthy_str:
  "s \<noteq> [] \<Longrightarrow> split_filepaths_into_batches R g xs b (PyStr s) seed
     = split_filepaths_into_batches R g xs b (PyBool True) seed"
  by (simp add: split_filepaths_into_batches_def)

lemma main_generator:
  assumes "cli_directory argv = Some d" and "gather_filenames E d = Inr all_image_paths"
  shows "fst (snd (main R E argv g fs))
       = (if truthy (case cli_shuffle argv of None \<Rightarrow> PyBool True | Some s \<Rightarrow> PyStr s)
          then snd (random_shuffle R g all_image_paths) else g)"
  using assms
  by (auto simp: main_def main_with_args_def parse_args_def split_filepaths_into_batches_def Let_def
      split: sum.splits prod.splits option.splits)

section \<open>The partition\<close>

text \<open>
  C1, as the code has it. For a batch size \<open>b > 0\<close>, the partitioner returns a
  dictionary and raises nothing. With \<open>paths\<close> the sequence as the optional shuffle
  leaves it, \<open>N\<close> its length and \<open>k = (N + b - 1) div b\<close>, which is the ceiling of
  \<open>N / b\<close>: the keys are \<open>1, \<dots>, k\<close> in this order; batch \<open>j\<close> is the window of
  \<open>paths\<close> from position \<open>(j - 1) * b\<close>, at most \<open>b\<close> long; the batches concatenated
  in key order are \<open>paths\<close>, so nothing is left out and nothing is added; every batch
  before the last has \<open>b\<close> members, the last has \<open>N - b * (k - 1)\<close>, and every batch has
  between \<open>1\<close> and \<open>b\<close>. When \<open>paths\<close> has no repeated entry the batches are pairwise
  disjoint, and when the library's shuffle permutes, \<open>paths\<close> has the entries of the
  argument list.
\<close>

theorem split_partitions:
  fixes b :: int
  assumes "0 < b"
    and "split_filepaths_into_batches R g all_image_paths (PyInt b) shuffle seed
           = (result, paths, g')"
  defines "k \<equiv> (int (length paths) + b - 1) div b"
  defines "bs \<equiv> map (\<lambda>j. (j, take (nat b) (drop (nat ((j - 1) * b)) paths))) [1..k]"
  shows "result = Inr bs
       \<and> map fst bs = [1..k]
       \<and> k = \<lceil>real (length paths) / real_of_int b\<rceil>
       \<and> concat (map snd bs) = paths
       \<and> (\<forall>(j, ys) \<in> set bs.
             (j < k \<longrightarrow> length ys = nat b) \<and>
             (j = k \<longrightarrow> int (length ys) = int (length paths) - b * (k - 1)) \<and>
             1 \<le> length ys \<and> int (length ys) \<le> b)
       \<and> (distinct paths \<longrightarrow> pairwise_disjoint bs)
       \<and> (permuting R \<longrightarrow> mset paths = mset all_image_paths)"
proof -
  have res: "result = slice_into_batches paths (PyInt b)"
    and paths: "paths = (if truthy shuffle
            then fst (random_shuffle R (if seed \<noteq> PyNone then random_seed R seed else g) all_image_paths)
            else all_image_paths)"
    using split_result [OF assms(2)] by simp_all
  have 1: "result = Inr bs"
    unfolding res bs_def k_def by (rule slice_into_batches_windows [OF assms(1)])
  have 2: "map fst bs = [1..k]" by (simp add: bs_def comp_def)
  have 3: "k = \<lceil>real (length paths) / real_of_int b\<rceil>"
    unfolding k_def by (rule ceil_div_real [OF assms(1)])
  have 4: "concat (map snd bs) = paths"
    unfolding bs_def k_def by (rule concat_windows [OF assms(1)])
  have 5: "(j < k \<longrightarrow> length ys = nat b) \<and>
           (j = k \<longrightarrow> int (length ys) = int (length paths) - b * (k - 1)) \<and>
           1 \<le> length ys \<and> int (length ys) \<le> b" if "(j, ys) \<in> set bs" for j ys
  proof -
    have j: "1 \<le> j" "j \<le> (int (length paths) + b - 1) div b"
      and ys: "ys = take (nat b) (drop (nat ((j - 1) * b)) paths)"
      using that by (auto simp: bs_def k_def)
    show ?thesis
      unfolding ys k_def using window_sizes [OF assms(1) j] by blast
  qed
  have 6: "pairwise_disjoint bs" if "distinct paths"
    using that 4 by (intro pairwise_disjoint_concat) simp
  have 7: "mset paths = mset all_image_paths" if "permuting R"
    using that unfolding paths permuting_def by simp
  from 1 2 3 4 5 6 7 show ?thesis by blast
qed

theorem split_partitions_witness:
  "(0::int) < 3
   \<and> split_filepaths_into_batches demo_random (1::nat)
        [''/d/a'', ''/d/b'', ''/d/c'', ''/d/d'', ''/d/e'', ''/d/f'', ''/d/g''] (PyInt 3) (PyBool True) PyNone
      = (Inr [(1, [''/d/b'', ''/d/c'', ''/d/d'']), (2, [''/d/e'', ''/d/f'', ''/d/g'']), (3, [''/d/a''])],
         [''/d/b'', ''/d/c'', ''/d/d'', ''/d/e'', ''/d/f'', ''/d/g'', ''/d/a''], 2)
   \<and> distinct [''/d/b'', ''/d/c'', ''/d/d'', ''/d/e'', ''/d/f'', ''/d/g'', ''/d/a'']
   \<and> permuting demo_random
   \<and> pairwise_disjoint
        [(1, [''/d/b'', ''/d/c'', ''/d/d'']), (2, [''/d/e'', ''/d/f'', ''/d/g'']), (3, [''/d/a''])]
   \<and> mset [''/d/b'', ''/d/c'', ''/d/d'', ''/d/e'', ''/d/f'', ''/d/g'', ''/d/a'']
      = mset [''/d/a'', ''/d/b'', ''/d/c'', ''/d/d'', ''/d/e'', ''/d/f'', ''/d/g'']"
proof -
  have h1: "(0::int) < 3" by simp
  note h2 = demo_split_shuffled
  have d: "distinct [''/d/b'', ''/d/c'', ''/d/d'', ''/d/e'', ''/d/f'', ''/d/g'', ''/d/a'']"
    by simp
  note T = split_partitions [OF h1 h2]
  from T have e: "[(1, [''/d/b'', ''/d/c'', ''/d/d'']), (2, [''/d/e'', ''/d/f'', ''/d/g'']), (3, [''/d/a''])]
      = map (\<lambda>j. (j, take (nat 3) (drop (nat ((j - 1) * 3))
            [''/d/b'', ''/d/c'', ''/d/d'', ''/d/e'', ''/d/f'', ''/d/g'', ''/d/a''])))
          [1..(int (length [''/d/b'', ''/d/c'', ''/d/d'', ''/d/e'', ''/d/f'', ''/d/g'', ''/d/a'']) + 3 - 1) div 3]"
    by blast
  from T d have "pairwise_disjoint (map (\<lambda>j. (j, take (nat 3) (drop (nat ((j - 1) * 3))
            [''/d/b'', ''/d/c'', ''/d/d'', ''/d/e'', ''/d/f'', ''/d/g'', ''/d/a''])))
          [1..(int (length [''/d/b'', ''/d/c'', ''/d/d'', ''/d/e'', ''/d/f'', ''/d/g'', ''/d/a'']) + 3 - 1) div 3])"
    by blast
  then have pd: "pairwise_disjoint
        [(1, [''/d/b'', ''/d/c'', ''/d/d'']), (2, [''/d/e'', ''/d/f'', ''/d/g'']), (3, [''/d/a''])]"
    unfolding e [symmetric] .
  from T demo_permuting have ms: "mset [''/d/b'', ''/d/c'', ''/d/d'', ''/d/e'', ''/d/f'', ''/d/g'', ''/d/a'']
      = mset [''/d/a'', ''/d/b'', ''/d/c'', ''/d/d'', ''/d/e'', ''/d/f'', ''/d/g'']"
    by blast
  show ?thesis using h1 h2 d demo_permuting pd ms by blast
qed

text \<open>
  The statement of C1 without the condition on repeated entries fails: a path that
  occurs twice in the argument list lies in two batches.
\<close>

theorem repeated_path_in_two_batches:
  "split_filepaths_into_batches demo_random (0::nat) [''/d/a'', ''/d/a''] (PyInt 1) (PyBool False) PyNone
     = (Inr [(1, [''/d/a'']), (2, [''/d/a''])], [''/d/a'', ''/d/a''], 0)
   \<and> \<not> pairwise_disjoint [(1, [''/d/a'']), (2, [''/d/a''])]"
  by code_simp

section \<open>Reproducible shuffling\<close>

text \<open>
  C3. With a seed other than \<^verbatim>\<open>None\<close>, the partitioner's outcome does not depend on the
  state in which it finds the generator: two calls with the same seed, the same paths
  in the same order, the same batch size and the same shuffle flag return the same
  batch collection (the same numbers, members and order within each batch), and leave
  the list and the generator the same.
\<close>

theorem seeded_split_reproducible:
  assumes "seed \<noteq> PyNone"
  shows "split_filepaths_into_batches R g all_image_paths batch_size shuffle seed
       = split_filepaths_into_batches R g' all_image_paths batch_size shuffle seed"
  using assms by (simp add: split_filepaths_into_batches_def)

theorem seeded_split_reproducible_witness:
  "PyInt 4 \<noteq> PyNone
   \<and> split_filepaths_into_batches demo_random (0::nat) [''/d/a'', ''/d/b'', ''/d/c'', ''/d/d'', ''/d/e'', ''/d/f'', ''/d/g''] (PyInt 3) (PyBool True) (PyInt 4)
     = split_filepaths_into_batches demo_random 1 [''/d/a'', ''/d/b'', ''/d/c'', ''/d/d'', ''/d/e'', ''/d/f'', ''/d/g''] (PyInt 3) (PyBool True) (PyInt 4)
   \<and> split_filepaths_into_batches demo_random (0::nat) [''/d/a'', ''/d/b'', ''/d/c'', ''/d/d'', ''/d/e'', ''/d/f'', ''/d/g''] (PyInt 3) (PyBool True) PyNone
     \<noteq> split_filepaths_into_batches demo_random 1 [''/d/a'', ''/d/b'', ''/d/c'', ''/d/d'', ''/d/e'', ''/d/f'', ''/d/g''] (PyInt 3) (PyBool True) PyNone"
proof -
  have h: "PyInt 4 \<noteq> PyNone" by simp
  have u: "split_filepaths_into_batches demo_random (0::nat) [''/d/a'', ''/d/b'', ''/d/c'', ''/d/d'', ''/d/e'', ''/d/f'', ''/d/g''] (PyInt 3) (PyBool True) PyNone
     \<noteq> split_filepaths_into_batches demo_random 1 [''/d/a'', ''/d/b'', ''/d/c'', ''/d/d'', ''/d/e'', ''/d/f'', ''/d/g''] (PyInt 3) (PyBool True) PyNone"
    by code_simp
  show ?thesis
    using h u seeded_split_reproducible [OF h, of demo_random 0 "[''/d/a'', ''/d/b'', ''/d/c'', ''/d/d'', ''/d/e'', ''/d/f'', ''/d/g'']" "PyInt 3" "PyBool True" 1]
    by blast
qed

section \<open>Order without shuffling\<close>

text \<open>
  C4. With a batch size \<open>b > 0\<close> and a shuffle flag that tests false, the partitioner
  returns the batches \<open>1, \<dots>, k\<close>, \<open>k\<close> the ceiling of \<open>N / b\<close>, where batch \<open>j\<close> is the
  slice of the argument list from index \<open>(j - 1) * b\<close> to \<open>j * b\<close>; the list itself is
  left as it was.
\<close>

theorem no_shuffle_keeps_order:
  fixes b :: int
  assumes "0 < b" and "\<not> truthy shuffle"
  shows "split_filepaths_into_batches R g all_image_paths (PyInt b) shuffle seed
       = (Inr (map (\<lambda>j. (j, take (nat b) (drop (nat ((j - 1) * b)) all_image_paths)))
                 [1..(int (length all_image_paths) + b - 1) div b]),
          all_image_paths,
          if seed \<noteq> PyNone then random_seed R seed else g)"
  using assms slice_into_batches_windows [OF assms(1), of all_image_paths]
  by (simp add: split_filepaths_into_batches_def)

theorem no_shuffle_keeps_order_witness:
  "(0::int) < 3 \<and> \<not> truthy (PyBool False)
   \<and> split_filepaths_into_batches demo_random (1::nat) [''/d/a'', ''/d/b'', ''/d/c'', ''/d/d'', ''/d/e'', ''/d/f'', ''/d/g''] (PyInt 3) (PyBool False) PyNone
     = (Inr [(1, [''/d/a'', ''/d/b'', ''/d/c'']), (2, [''/d/d'', ''/d/e'', ''/d/f'']), (3, [''/d/g''])],
        [''/d/a'', ''/d/b'', ''/d/c'', ''/d/d'', ''/d/e'', ''/d/f'', ''/d/g''], 1)"
proof -
  have h1: "(0::int) < 3" by simp
  have h2: "\<not> truthy (PyBool False)" by simp
  have e: "map (\<lambda>j. (j, take (nat 3) (drop (nat ((j - 1) * 3)) [''/d/a'', ''/d/b'', ''/d/c'', ''/d/d'', ''/d/e'', ''/d/f'', ''/d/g''])))
             [1..(int (length [''/d/a'', ''/d/b'', ''/d/c'', ''/d/d'', ''/d/e'', ''/d/f'', ''/d/g'']) + 3 - 1) div 3]
         = [(1, [''/d/a'', ''/d/b'', ''/d/c'']), (2, [''/d/d'', ''/d/e'', ''/d/f'']), (3, [''/d/g''])]"
    by code_simp
  show ?thesis
    using h1 h2 no_shuffle_keeps_order [OF h1 h2, of demo_random 1 "[''/d/a'', ''/d/b'', ''/d/c'', ''/d/d'', ''/d/e'', ''/d/f'', ''/d/g'']" PyNone]
    unfolding e by simp
qed

section \<open>The empty listing\<close>

text \<open>
  C7. For the empty list of paths and a batch size \<open>b > 0\<close>, with a shuffle that
  permutes, the partitioner returns the empty batch collection, and the materializer
  applied to the empty collection raises nothing and leaves the file system as it
  was: no folder is created.
\<close>

theorem empty_listing_no_batches:
  fixes b :: int
  assumes "0 < b" and "permuting R"
  shows "fst (split_filepaths_into_batches R g [] (PyInt b) shuffle seed) = Inr []
       \<and> create_all_batches fs [] directory = (None, fs)"
proof -
  obtain result paths g' where
    s: "split_filepaths_into_batches R g [] (PyInt b) shuffle seed = (result, paths, g')"
    by (cases "split_filepaths_into_batches R g [] (PyInt b) shuffle seed")
  have "mset (fst (random_shuffle R g0 [])) = mset []" for g0
    using assms(2) unfolding permuting_def by blast
  then have "fst (random_shuffle R g0 []) = []" for g0 by simp
  then have "paths = []"
    using split_result [OF s] by (simp split: if_splits)
  moreover have "(b - 1) div b = 0" using assms(1) by (simp add: div_pos_pos_trivial)
  ultimately have "result = Inr []"
    using split_result [OF s] slice_into_batches_windows [OF assms(1), of "[]"] by simp
  then show ?thesis using s by simp
qed

theorem empty_listing_no_batches_witness:
  "(0::int) < 3 \<and> permuting demo_random
   \<and> fst (split_filepaths_into_batches demo_random (0::nat) [] (PyInt 3) (PyBool True) PyNone) = Inr []
   \<and> create_all_batches [(''/out'', Dir)] [] ''/out'' = (None, [(''/out'', Dir)])"
proof -
  have h1: "(0::int) < 3" by simp
  show ?thesis
    using h1 demo_permuting
      empty_listing_no_batches [OF h1 demo_permuting, of 0 "PyBool True" PyNone "[(''/out'', Dir)]" "''/out''"]
    by blast
qed

section \<open>The shuffle works on the caller's list\<close>

text \<open>
  C10. The list the caller passed is, after the call, in the order in which the
  library's shuffle left it when the shuffle flag tests true, and as it was when the
  flag tests false. This holds whatever the batch size, also when the call raises.
\<close>

theorem shuffle_reorders_argument:
  "fst (snd (split_filepaths_into_batches R g all_image_paths batch_size shuffle seed))
     = (if truthy shuffle
        then fst (random_shuffle R (if seed \<noteq> PyNone then random_seed R seed else g) all_image_paths)
        else all_image_paths)"
  by (simp add: split_filepaths_into_batches_def Let_def split: prod.splits)

theorem shuffle_reorders_argument_witness:
  "fst (snd (split_filepaths_into_batches demo_random (1::nat) [''/d/a'', ''/d/b'', ''/d/c'']
              (PyStr ''2'') (PyBool True) PyNone)) = [''/d/b'', ''/d/c'', ''/d/a'']
   \<and> fst (snd (split_filepaths_into_batches demo_random (1::nat) [''/d/a'', ''/d/b'', ''/d/c'']
              (PyInt 2) (PyBool False) PyNone)) = [''/d/a'', ''/d/b'', ''/d/c'']"
  using shuffle_reorders_argument [of demo_random 1 "[''/d/a'', ''/d/b'', ''/d/c'']" "PyStr ''2''" "PyBool True" PyNone]
    shuffle_reorders_argument [of demo_random 1 "[''/d/a'', ''/d/b'', ''/d/c'']" "PyInt 2" "PyBool False" PyNone]
  by (simp add: demo_random_def)

section \<open>The seed flag\<close>

text \<open>
  C2. The claim is that a value given for \<^verbatim>\<open>-S/--seed\<close> reaches the partitioner and
  fixes the permutation. \<^verbatim>\<open>main\<close> never reads \<^verbatim>\<open>args.seed\<close>: a run with a seed is the
  run without one, and on the sample data two runs with the same seed \<^verbatim>\<open>42\<close> and the
  same listing, started in two states of the generator, write out different batches.
\<close>

theorem seed_flag_never_reaches_shuffle:
  "main R E (argv\<lparr>cli_seed := Some s\<rparr>) g fs = main R E (argv\<lparr>cli_seed := None\<rparr>) g fs
   \<and> fst (main demo_random demo_env (demo_argv\<lparr>cli_seed := Some ''42''\<rparr>) 0 demo_fs)
       = Inr [(1, [''/d/c'', ''/d/b'', ''/d/a''])]
   \<and> fst (main demo_random demo_env (demo_argv\<lparr>cli_seed := Some ''42''\<rparr>) 1 demo_fs)
       = Inr [(1, [''/d/b'', ''/d/c'', ''/d/a''])]"
proof -
  have a: "main R E (argv\<lparr>cli_seed := Some s\<rparr>) g fs = main R E (argv\<lparr>cli_seed := None\<rparr>) g fs"
    by (simp add: main_ignores_seed)
  have b: "fst (main demo_random demo_env (demo_argv\<lparr>cli_seed := Some ''42''\<rparr>) 0 demo_fs)
       = Inr [(1, [''/d/c'', ''/d/b'', ''/d/a''])]"
    by code_simp
  have c: "fst (main demo_random demo_env (demo_argv\<lparr>cli_seed := Some ''42''\<rparr>) 1 demo_fs)
       = Inr [(1, [''/d/b'', ''/d/c'', ''/d/a''])]"
    by code_simp
  from a b c show ?thesis by blast
qed

section \<open>Batch sizes that are not positive\<close>

text \<open>
  C5, as the code has it. An integer batch size \<open>b \<le> 0\<close> is checked nowhere. For
  \<open>b = 0\<close> the call of \<^verbatim>\<open>range\<close> raises \<^verbatim>\<open>ValueError\<close>, after the optional shuffle
  and before anything is written. For \<open>b < 0\<close> nothing is raised: the range is
  empty, the partitioner returns the empty batch collection, the materializer has
  nothing to do, and the run ends normally with the file system as it was.
\<close>

theorem nonpositive_batch_size_not_rejected:
  fixes b :: int
  assumes "b \<le> 0"
  shows "fst (split_filepaths_into_batches R g all_image_paths (PyInt b) shuffle seed)
           = (if b = 0 then Inl ValueError else Inr [])
       \<and> snd (snd (main_with_args R E (a\<lparr>arg_batch_size := PyInt b\<rparr>) g fs)) = fs
       \<and> (\<forall>paths. gather_filenames E (arg_directory a) = Inr paths \<longrightarrow>
            fst (main_with_args R E (a\<lparr>arg_batch_size := PyInt b\<rparr>) g fs)
              = (if b = 0 then Inl ValueError else Inr []))"
proof -
  have s: "slice_into_batches xs (PyInt b) = (if b = 0 then Inl ValueError else Inr [])" for xs
    using assms slice_into_batches_neg [of b xs] slice_into_batches_zero [of xs] by auto
  have 1: "fst (split_filepaths_into_batches R g xs (PyInt b) sh sd)
           = (if b = 0 then Inl ValueError else Inr [])" for xs sh sd
    by (simp add: split_filepaths_into_batches_def Let_def s split: prod.splits)
  have m: "main_with_args R E (a\<lparr>arg_batch_size := PyInt b\<rparr>) g fs
         = (case gather_filenames E (arg_directory a) of
              Inl e \<Rightarrow> (Inl e, g, fs)
            | Inr xs \<Rightarrow>
                (if b = 0 then Inl ValueError else Inr [],
                 snd (snd (split_filepaths_into_batches R g xs (PyInt b) (arg_shuffle a) PyNone)),
                 fs))"
  proof (cases "gather_filenames E (arg_directory a)")
    case (Inl e)
    then show ?thesis by (simp add: main_with_args_def)
  next
    case (Inr xs)
    obtain r p g' where
      sp: "split_filepaths_into_batches R g xs (PyInt b) (arg_shuffle a) PyNone = (r, p, g')"
      by (metis prod_cases3)
    have "r = (if b = 0 then Inl ValueError else Inr [])"
      using 1 [of xs "arg_shuffle a" PyNone] sp by simp
    then show ?thesis using Inr sp by (simp add: main_with_args_def)
  qed
  have 2: "snd (snd (main_with_args R E (a\<lparr>arg_batch_size := PyInt b\<rparr>) g fs)) = fs"
    unfolding m by (simp split: sum.splits)
  have 3: "fst (main_with_args R E (a\<lparr>arg_batch_size := PyInt b\<rparr>) g fs)
              = (if b = 0 then Inl ValueError else Inr [])"
    if "gather_filenames E (arg_directory a) = Inr paths" for paths
    unfolding m using that by simp
  from 1 2 3 show ?thesis by blast
qed

theorem nonpositive_batch_size_not_rejected_witness:
  "(0::int) \<le> 0 \<and> (- 2::int) \<le> 0
   \<and> gather_filenames demo_env (arg_directory demo_args) = Inr [''/d/a'', ''/d/b'', ''/d/c'']
   \<and> fst (main_with_args demo_random demo_env (demo_args\<lparr>arg_batch_size := PyInt 0\<rparr>) (1::nat) demo_fs)
       = Inl ValueError
   \<and> snd (snd (main_with_args demo_random demo_env (demo_args\<lparr>arg_batch_size := PyInt 0\<rparr>) (1::nat) demo_fs))
       = demo_fs
   \<and> fst (main_with_args demo_random demo_env (demo_args\<lparr>arg_batch_size := PyInt (- 2)\<rparr>) (1::nat) demo_fs)
       = Inr []
   \<and> snd (snd (main_with_args demo_random demo_env (demo_args\<lparr>arg_batch_size := PyInt (- 2)\<rparr>) (1::nat) demo_fs))
       = demo_fs"
proof -
  have h0: "(0::int) \<le> 0" and h2: "(- 2::int) \<le> 0" by simp_all
  have l: "gather_filenames demo_env (arg_directory demo_args) = Inr [''/d/a'', ''/d/b'', ''/d/c'']"
    by code_simp
  show ?thesis
    using h0 h2 l
      nonpositive_batch_size_not_rejected [OF h0, of demo_random 1 "[]" PyNone PyNone demo_env demo_args demo_fs]
      nonpositive_batch_size_not_rejected [OF h2, of demo_random 1 "[]" PyNone PyNone demo_env demo_args demo_fs]
    by simp
qed

text \<open>
  The statement of C5 fails for a negative batch size: the run is not rejected, it
  ends without an exception and with no batch.
\<close>

theorem negative_batch_size_silently_accepted:
  "main_with_args demo_random demo_env (demo_args\<lparr>arg_batch_size := PyInt (- 2)\<rparr>) (1::nat) demo_fs
     = (Inr [], 2, demo_fs)"
  by code_simp

section \<open>The destination folder\<close>

text \<open>
  C6. The folder of batch \<open>n\<close> is \<^verbatim>\<open>"Batch " + str(n)\<close> under the output directory, and
  two batch numbers never give the same path. When a directory exists at that path and
  has an entry below it, \<^verbatim>\<open>os.rmdir\<close> raises and the file system is left as it was.
  When the directory is empty it is removed, then \<^verbatim>\<open>os.makedirs\<close> creates it again, then
  the files are copied in the order of the batch. The call returns without an
  exception when the path is free or an empty directory, no path above it is a file,
  and every member is a file. Whenever \<^verbatim>\<open>create_batch_folder\<close> returns, the folder is
  a directory that holds a file under the base name of every member, with the member's
  content when the base names differ.
\<close>

theorem folder_named_removed_recreated:
  fixes folder_name directory :: string
  defines "p \<equiv> path_join directory folder_name"
  shows "create_all_batches fs0 ((batch_no, files) # rest) directory
           = (case create_batch_folder fs0 files (''Batch '' @ str_int batch_no) directory of
                (Some e, fs1) \<Rightarrow> (Some e, fs1)
              | (None, fs1) \<Rightarrow> create_all_batches fs1 rest directory)
       \<and> (path_join directory (''Batch '' @ str_int i) = path_join directory (''Batch '' @ str_int j)
            \<longrightarrow> i = j)
       \<and> (path_isdir fs p \<and> dir_nonempty fs p \<longrightarrow>
            create_batch_folder fs files folder_name directory = (Some DirectoryNotEmpty, fs))
       \<and> (path_isdir fs p \<and> \<not> dir_nonempty fs p \<longrightarrow>
            create_batch_folder fs files folder_name directory
              = (case os_makedirs (AList.delete p fs) p of
                   Inl e \<Rightarrow> (Some e, AList.delete p fs)
                 | Inr fs2 \<Rightarrow> copy_each fs2 files p))
       \<and> (map_of fs (path_join directory (''Batch '' @ str_int n)) \<in> {None, Some Dir} \<and>
          \<not> dir_nonempty fs (path_join directory (''Batch '' @ str_int n)) \<and>
          \<not> list_ex (is_file fs) (ancestors (path_join directory (''Batch '' @ str_int n))) \<and>
          (\<forall>f \<in> set files. is_file fs f) \<longrightarrow>
            (\<exists>fs2. create_batch_folder fs files (''Batch '' @ str_int n) directory = (None, fs2)))
       \<and> (create_batch_folder fs files folder_name directory = (None, fs') \<longrightarrow>
            path_isdir fs' p \<and>
            (\<forall>f \<in> set files. is_file fs' (path_join p (basename f))) \<and>
            (distinct (map basename files) \<longrightarrow>
               (\<forall>f \<in> set files. map_of fs' (path_join p (basename f)) = map_of fs f)))"
proof -
  have 1: "create_all_batches fs0 ((batch_no, files) # rest) directory
           = (case create_batch_folder fs0 files (''Batch '' @ str_int batch_no) directory of
                (Some e, fs1) \<Rightarrow> (Some e, fs1)
              | (None, fs1) \<Rightarrow> create_all_batches fs1 rest directory)"
    by (simp add: batch_folder_name_def split: prod.splits option.splits)
  have 2: "i = j"
    if "path_join directory (''Batch '' @ str_int i) = path_join directory (''Batch '' @ str_int j)"
    using that batch_folder_path_inj [of directory i j] by (simp add: batch_folder_name_def)
  note 3 = create_batch_folder_nonempty [of fs directory folder_name files, folded p_def]
  note 4 = create_batch_folder_empty [of fs directory folder_name files, folded p_def]
  note 5 = create_batch_folder_success [of fs files folder_name directory fs', folded p_def]
  note 6 = create_batch_folder_succeeds [of fs directory n files, unfolded batch_folder_name_def]
  show ?thesis
    using 1 2 3 4 5 6 by (intro conjI; blast)
qed

theorem folder_named_removed_recreated_witness:
  "path_isdir demo_fs_full_folder (path_join ''/out'' ''Batch 1'')
   \<and> dir_nonempty demo_fs_full_folder (path_join ''/out'' ''Batch 1'')
   \<and> create_batch_folder demo_fs_full_folder [''/d/a'', ''/d/b''] ''Batch 1'' ''/out''
       = (Some DirectoryNotEmpty, demo_fs_full_folder)
   \<and> path_isdir demo_fs_empty_folder (path_join ''/out'' ''Batch 1'')
   \<and> \<not> dir_nonempty demo_fs_empty_folder (path_join ''/out'' ''Batch 1'')
   \<and> create_batch_folder demo_fs_empty_folder [''/d/a'', ''/d/b''] ''Batch 1'' ''/out''
       = (None, demo_fs @ [(''/out/Batch 1'', Dir), (''/out/Batch 1/a'', File ''A''),
                           (''/out/Batch 1/b'', File ''B'')])
   \<and> map_of demo_fs (path_join ''/out'' (''Batch '' @ str_int 1)) = None
   \<and> \<not> dir_nonempty demo_fs (path_join ''/out'' (''Batch '' @ str_int 1))
   \<and> \<not> list_ex (is_file demo_fs) (ancestors (path_join ''/out'' (''Batch '' @ str_int 1)))
   \<and> is_file demo_fs ''/d/a'' \<and> is_file demo_fs ''/d/b''
   \<and> (\<exists>fs2. create_batch_folder demo_fs [''/d/a'', ''/d/b''] (''Batch '' @ str_int 1) ''/out''
              = (None, fs2))
   \<and> distinct (map basename [''/d/a'', ''/d/b''])
   \<and> map_of (demo_fs @ [(''/out/Batch 1'', Dir), (''/out/Batch 1/a'', File ''A''),
                         (''/out/Batch 1/b'', File ''B'')])
        (path_join (path_join ''/out'' ''Batch 1'') (basename ''/d/a''))
       = map_of demo_fs_empty_folder ''/d/a''"
proof -
  have a1: "path_isdir demo_fs_full_folder (path_join ''/out'' ''Batch 1'')" by code_simp
  have a2: "dir_nonempty demo_fs_full_folder (path_join ''/out'' ''Batch 1'')" by code_simp
  have b1: "path_isdir demo_fs_empty_folder (path_join ''/out'' ''Batch 1'')" by code_simp
  have b2: "\<not> dir_nonempty demo_fs_empty_folder (path_join ''/out'' ''Batch 1'')" by code_simp
  have b3: "create_batch_folder demo_fs_empty_folder [''/d/a'', ''/d/b''] ''Batch 1'' ''/out''
       = (None, demo_fs @ [(''/out/Batch 1'', Dir), (''/out/Batch 1/a'', File ''A''),
                           (''/out/Batch 1/b'', File ''B'')])"
    by code_simp
  have b4: "distinct (map basename [''/d/a'', ''/d/b''])" by code_simp
  have b5: "''/d/a'' \<in> set [''/d/a'', ''/d/b'']" by simp
  have c1: "map_of demo_fs (path_join ''/out'' (''Batch '' @ str_int 1)) = None" by code_simp
  have c2: "\<not> dir_nonempty demo_fs (path_join ''/out'' (''Batch '' @ str_int 1))" by code_simp
  have c3: "\<not> list_ex (is_file demo_fs) (ancestors (path_join ''/out'' (''Batch '' @ str_int 1)))"
    by code_simp
  have c4: "is_file demo_fs ''/d/a''" "is_file demo_fs ''/d/b''" by code_simp+
  have fresh: "\<exists>fs2. create_batch_folder demo_fs [''/d/a'', ''/d/b''] (''Batch '' @ str_int 1) ''/out''
              = (None, fs2)"
    using c1 c2 c3 c4
      folder_named_removed_recreated [where fs = demo_fs and directory = "''/out''"
        and n = 1 and files = "[''/d/a'', ''/d/b'']",
        THEN conjunct2, THEN conjunct2, THEN conjunct2, THEN conjunct2, THEN conjunct1]
    by simp
  have full: "create_batch_folder demo_fs_full_folder [''/d/a'', ''/d/b''] ''Batch 1'' ''/out''
       = (Some DirectoryNotEmpty, demo_fs_full_folder)"
    using a1 a2
      folder_named_removed_recreated [where fs = demo_fs_full_folder and directory = "''/out''"
        and folder_name = "''Batch 1''" and files = "[''/d/a'', ''/d/b'']",
        THEN conjunct2, THEN conjunct2, THEN conjunct1]
    by blast
  have content: "map_of (demo_fs @ [(''/out/Batch 1'', Dir), (''/out/Batch 1/a'', File ''A''),
                         (''/out/Batch 1/b'', File ''B'')])
        (path_join (path_join ''/out'' ''Batch 1'') (basename ''/d/a''))
       = map_of demo_fs_empty_folder ''/d/a''"
    using b3 b4 b5
      folder_named_removed_recreated [where fs = demo_fs_empty_folder and directory = "''/out''"
        and folder_name = "''Batch 1''" and files = "[''/d/a'', ''/d/b'']"
        and fs' = "demo_fs @ [(''/out/Batch 1'', Dir), (''/out/Batch 1/a'', File ''A''),
                           (''/out/Batch 1/b'', File ''B'')]",
        THEN conjunct2, THEN conjunct2, THEN conjunct2, THEN conjunct2, THEN conjunct2]
    by blast
  show ?thesis
    using a1 a2 full b1 b2 b3 b4 c1 c2 c3 c4 fresh content by (intro conjI)
qed

section \<open>The batch size flag\<close>

text \<open>
  C8. In a run with a directory argument whose listing succeeds: a value given for
  \<^verbatim>\<open>-b/--batch_size\<close> reaches the partitioner as a string, the run ends with
  \<^verbatim>\<open>TypeError\<close> and nothing is written; without the flag the batch size is the integer
  \<open>100\<close> and the partitioner returns a batch collection. In any run, \<^verbatim>\<open>main\<close> writes
  out batches only when the flag is absent.
\<close>

theorem supplied_batch_size_type_error:
  assumes "cli_directory argv = Some d"
    and "gather_filenames E d = Inr all_image_paths"
  shows "(\<forall>s. cli_batch_size argv = Some s \<longrightarrow>
            fst (main R E argv g fs) = Inl TypeError \<and> snd (snd (main R E argv g fs)) = fs)
       \<and> (cli_batch_size argv = None \<longrightarrow>
            (\<exists>bs paths g'.
               split_filepaths_into_batches R g all_image_paths (PyInt 100)
                 (case cli_shuffle argv of None \<Rightarrow> PyBool True | Some s \<Rightarrow> PyStr s) PyNone
                 = (Inr bs, paths, g')))
       \<and> (\<forall>bs. fst (main R E argv g fs) = Inr bs \<longrightarrow> cli_batch_size argv = None)"
proof -
  have 1: "fst (main R E argv g fs) = Inl TypeError \<and> snd (snd (main R E argv g fs)) = fs"
    if s: "cli_batch_size argv = Some s" for s
  proof -
    obtain r p g' where
      sp: "split_filepaths_into_batches R g all_image_paths (PyStr s)
             (case cli_shuffle argv of None \<Rightarrow> PyBool True | Some s \<Rightarrow> PyStr s) PyNone = (r, p, g')"
      by (metis prod_cases3)
    have "r = Inl TypeError" using split_str_batch_size [of R g all_image_paths s] sp by (metis fst_conv)
    then show ?thesis
      using assms s sp by (simp add: main_def main_with_args_def parse_args_def)
  qed
  have 2: "\<exists>bs paths g'.
       split_filepaths_into_batches R g all_image_paths (PyInt 100) sh PyNone = (Inr bs, paths, g')" for sh
  proof -
    obtain r p g' where
      sp: "split_filepaths_into_batches R g all_image_paths (PyInt 100) sh PyNone = (r, p, g')"
      by (metis prod_cases3)
    have "r = slice_into_batches p (PyInt 100)" using split_result [OF sp] by simp
    then show ?thesis using sp slice_into_batches_windows [of 100 p] by simp
  qed
  have 3: "cli_batch_size argv = None" if "fst (main R E argv g fs) = Inr bs" for bs
  proof (cases "cli_batch_size argv")
    case None
    then show ?thesis .
  next
    case (Some s)
    then show ?thesis using 1 that by simp
  qed
  from 1 2 3 show ?thesis by blast
qed

theorem supplied_batch_size_type_error_witness:
  "cli_directory (demo_argv\<lparr>cli_batch_size := Some ''2''\<rparr>) = Some ''/d''
   \<and> gather_filenames demo_env ''/d'' = Inr [''/d/a'', ''/d/b'', ''/d/c'']
   \<and> cli_batch_size (demo_argv\<lparr>cli_batch_size := Some ''2''\<rparr>) = Some ''2''
   \<and> fst (main demo_random demo_env (demo_argv\<lparr>cli_batch_size := Some ''2''\<rparr>) (1::nat) demo_fs)
       = Inl TypeError
   \<and> snd (snd (main demo_random demo_env (demo_argv\<lparr>cli_batch_size := Some ''2''\<rparr>) (1::nat) demo_fs))
       = demo_fs
   \<and> cli_batch_size demo_argv = None
   \<and> fst (main demo_random demo_env demo_argv (1::nat) demo_fs) = Inr [(1, [''/d/b'', ''/d/c'', ''/d/a''])]"
proof -
  have h1: "cli_directory (demo_argv\<lparr>cli_batch_size := Some ''2''\<rparr>) = Some ''/d''"
    by (simp add: demo_argv_def)
  have h3: "cli_batch_size (demo_argv\<lparr>cli_batch_size := Some ''2''\<rparr>) = Some ''2''"
    by simp
  have n: "cli_batch_size demo_argv = None" by (simp add: demo_argv_def)
  have r: "fst (main demo_random demo_env demo_argv (1::nat) demo_fs) = Inr [(1, [''/d/b'', ''/d/c'', ''/d/a''])]"
    by code_simp
  show ?thesis
    using h1 h3 n r demo_gather
      supplied_batch_size_type_error [OF h1 demo_gather, of demo_random 1 demo_fs]
    by blast
qed

section \<open>The shuffle flag\<close>

text \<open>
  C9. In a run with a directory argument whose listing succeeds, a value \<open>s\<close> given
  for \<^verbatim>\<open>-s/--shuffle\<close> reaches the partitioner as the string \<open>s\<close>, which tests true
  exactly when it is not empty. With a non-empty \<open>s\<close>, whatever it spells, the run is
  the run without the flag (the default \<^verbatim>\<open>True\<close>) and the generator is left in the state
  after shuffling the listing. Only with the empty string does the run go without
  shuffling: it is the run with the flag \<^verbatim>\<open>False\<close>, and the generator is not used.
\<close>

theorem any_shuffle_value_shuffles:
  assumes "cli_directory argv = Some d"
    and "gather_filenames E d = Inr all_image_paths"
    and "cli_shuffle argv = Some s"
  shows "(\<exists>a. parse_args (os_getcwd E) argv = Inr a \<and> arg_shuffle a = PyStr s)
       \<and> truthy (PyStr s) = (s \<noteq> [])
       \<and> (s \<noteq> [] \<longrightarrow>
            main R E argv g fs = main R E (argv\<lparr>cli_shuffle := None\<rparr>) g fs \<and>
            fst (snd (main R E argv g fs)) = snd (random_shuffle R g all_image_paths))
       \<and> (s = [] \<longrightarrow>
            main R E argv g fs
              = main_with_args R E
                  \<lparr> arg_directory = d,
                    arg_batch_size = (case cli_batch_size argv of None \<Rightarrow> PyInt 100 | Some s \<Rightarrow> PyStr s),
                    arg_shuffle = PyBool False,
                    arg_output_directory = (case cli_output_directory argv of None \<Rightarrow> os_getcwd E | Some s \<Rightarrow> s),
                    arg_seed = (case cli_seed argv of None \<Rightarrow> PyNone | Some s \<Rightarrow> PyStr s) \<rparr> g fs \<and>
            fst (snd (main R E argv g fs)) = g)"
proof -
  have 1: "\<exists>a. parse_args (os_getcwd E) argv = Inr a \<and> arg_shuffle a = PyStr s"
    using assms by (simp add: parse_args_def)
  have 2: "truthy (PyStr s) = (s \<noteq> [])" by simp
  have 3: "main R E argv g fs = main R E (argv\<lparr>cli_shuffle := None\<rparr>) g fs" if "s \<noteq> []"
    using assms that
    by (simp add: main_def main_with_args_def parse_args_def split_truthy_str cong: sum.case_cong)
  have 4: "fst (snd (main R E argv g fs)) = snd (random_shuffle R g all_image_paths)" if "s \<noteq> []"
    using main_generator [OF assms(1,2), of R g fs] assms(3) that by simp
  have 5: "main R E argv g fs
              = main_with_args R E
                  \<lparr> arg_directory = d,
                    arg_batch_size = (case cli_batch_size argv of None \<Rightarrow> PyInt 100 | Some s \<Rightarrow> PyStr s),
                    arg_shuffle = PyBool False,
                    arg_output_directory = (case cli_output_directory argv of None \<Rightarrow> os_getcwd E | Some s \<Rightarrow> s),
                    arg_seed = (case cli_seed argv of None \<Rightarrow> PyNone | Some s \<Rightarrow> PyStr s) \<rparr> g fs"
    if "s = []"
    using assms that
    by (simp add: main_def main_with_args_def parse_args_def split_filepaths_into_batches_def
        cong: sum.case_cong)
  have 6: "fst (snd (main R E argv g fs)) = g" if "s = []"
    using main_generator [OF assms(1,2), of R g fs] assms(3) that by simp
  from 1 2 3 4 5 6 show ?thesis by blast
qed

theorem any_shuffle_value_shuffles_witness:
  "cli_directory (demo_argv\<lparr>cli_shuffle := Some ''False''\<rparr>) = Some ''/d''
   \<and> gather_filenames demo_env ''/d'' = Inr [''/d/a'', ''/d/b'', ''/d/c'']
   \<and> cli_shuffle (demo_argv\<lparr>cli_shuffle := Some ''False''\<rparr>) = Some ''False''
   \<and> main demo_random demo_env (demo_argv\<lparr>cli_shuffle := Some ''False''\<rparr>) (1::nat) demo_fs
       = main demo_random demo_env (demo_argv\<lparr>cli_shuffle := None\<rparr>) 1 demo_fs
   \<and> fst (main demo_random demo_env (demo_argv\<lparr>cli_shuffle := Some ''False''\<rparr>) (1::nat) demo_fs)
       = Inr [(1, [''/d/b'', ''/d/c'', ''/d/a''])]
   \<and> fst (main demo_random demo_env (demo_argv\<lparr>cli_shuffle := Some ''''\<rparr>) (1::nat) demo_fs)
       = Inr [(1, [''/d/a'', ''/d/b'', ''/d/c''])]"
proof -
  have h1: "cli_directory (demo_argv\<lparr>cli_shuffle := Some ''False''\<rparr>) = Some ''/d''"
    by (simp add: demo_argv_def)
  have h3: "cli_shuffle (demo_argv\<lparr>cli_shuffle := Some ''False''\<rparr>) = Some ''False''"
    by simp
  have ne: "''False'' \<noteq> []" by simp
  have r1: "fst (main demo_random demo_env (demo_argv\<lparr>cli_shuffle := Some ''False''\<rparr>) (1::nat) demo_fs)
       = Inr [(1, [''/d/b'', ''/d/c'', ''/d/a''])]"
    by code_simp
  have r2: "fst (main demo_random demo_env (demo_argv\<lparr>cli_shuffle := Some ''''\<rparr>) (1::nat) demo_fs)
       = Inr [(1, [''/d/a'', ''/d/b'', ''/d/c''])]"
    by code_simp
  have "main demo_random demo_env (demo_argv\<lparr>cli_shuffle := Some ''False''\<rparr>) (1::nat) demo_fs
       = main demo_random demo_env (demo_argv\<lparr>cli_shuffle := None\<rparr>) 1 demo_fs"
    using any_shuffle_value_shuffles [OF h1 demo_gather h3, of demo_random 1 demo_fs] ne
    by simp
  then show ?thesis using h1 h3 demo_gather r1 r2 by blast
qed

end
